theory Spec2Isabelle
  imports Complex_Main "HOL-Library.Word"
begin

section \<open>The playlist engine of libgroove (groove/playlist.c)\<close>

text \<open>
  The C code works on heap objects through pointers. An address is a natural number, a
  pointer is an optional address (\<open>None\<close> is \<open>NULL\<close>), and each struct type has a store
  of its own mapping the live addresses to their contents. Reading or writing through
  \<open>NULL\<close> or through an address that is not live is a fault, and every operation
  returns either a fault or its result. C's \<open>int\<close> is a 32-bit word (read with
  \<open>sint\<close> where the sign matters), \<open>uint64_t\<close> and \<open>int64_t\<close> are 64-bit words, and a
  \<open>double\<close> is an IEEE 754 binary64 number (below).
\<close>

type_synonym ptr = nat

type_synonym c_int = "32 word"

datatype fault = Null_deref | Dangling

subsection \<open>Doubles\<close>

text \<open>
  A finite \<open>double\<close> is \<open>(-1)\<^sup>s \<sqdot> m \<sqdot> 2\<^sup>e\<close>, kept as its sign \<open>s\<close>, its significand \<open>m\<close> and its
  exponent \<open>e\<close>; the negative zero is the one with \<open>m = 0\<close> and the sign set. A binary64
  number has \<open>m < 2\<^sup>5\<^sup>3\<close> and \<open>-1074 \<le> e \<le> 971\<close>; the triples here are not restricted to
  those, so that every binary64 number is one of them, and every operation below goes by
  the value, not by the triple. Besides there are the two infinities and NaN (one NaN:
  its sign and payload are not kept).
\<close>

datatype double = Finite bool nat int | Infinity bool | NaN

text \<open>\<open>dbl m e\<close> is the double \<open>m \<sqdot> 2\<^sup>e\<close>: \<open>dbl 1 0\<close> is \<open>1.0\<close>, \<open>dbl 0 0\<close> is \<open>0.0\<close>, \<open>dbl 3 (-1)\<close> is \<open>1.5\<close>.\<close>

definition dbl :: "int \<Rightarrow> int \<Rightarrow> double" where
  "dbl m e = Finite (m < 0) (nat \<bar>m\<bar>) e"

definition valof :: "bool \<Rightarrow> nat \<Rightarrow> int \<Rightarrow> real" where
  "valof s m e =
     (if s then - 1 else 1) * (if 0 \<le> e then real m * 2 ^ nat e else real m / 2 ^ nat (- e))"

text \<open>
  C's \<open><\<close>, \<open>>\<close>, \<open>==\<close> and \<open>!=\<close> on doubles: by value on the finite ones (so \<open>-0.0 == 0.0\<close>),
  the infinities below and above them, and every comparison with NaN false but \<open>!=\<close>.
\<close>

fun double_lt :: "double \<Rightarrow> double \<Rightarrow> bool" where
  "double_lt (Finite s m e) (Finite s' m' e') = (valof s m e < valof s' m' e')"
| "double_lt (Finite s m e) (Infinity s') = (\<not> s')"
| "double_lt (Infinity s) (Finite s' m' e') = s"
| "double_lt (Infinity s) (Infinity s') = (s \<and> \<not> s')"
| "double_lt _ _ = False"

definition double_gt :: "double \<Rightarrow> double \<Rightarrow> bool" where
  "double_gt a b = double_lt b a"

fun double_eq :: "double \<Rightarrow> double \<Rightarrow> bool" where
  "double_eq (Finite s m e) (Finite s' m' e') = (valof s m e = valof s' m' e')"
| "double_eq (Infinity s) (Infinity s') = (s = s')"
| "double_eq _ _ = False"

definition double_ne :: "double \<Rightarrow> double \<Rightarrow> bool" where
  "double_ne a b = (\<not> double_eq a b)"

text \<open>The number of binary digits of \<open>n\<close>.\<close>

fun bitlen :: "nat \<Rightarrow> nat" where
  "bitlen n = (if n = 0 then 0 else Suc (bitlen (n div 2)))"

declare bitlen.simps [simp del]

text \<open>\<open>m / 2\<^sup>k\<close> rounded to the nearest natural number, a tie to the even one.\<close>

definition round_half_even :: "nat \<Rightarrow> nat \<Rightarrow> nat" where
  "round_half_even m k =
     (if k = 0 then m
      else let d = m div 2 ^ k; r = m mod 2 ^ k; half = 2 ^ (k - 1)
           in if r < half \<or> (r = half \<and> even d) then d else d + 1)"

text \<open>
  The binary64 number nearest to \<open>(-1)\<^sup>s \<sqdot> m \<sqdot> 2\<^sup>e\<close>, a tie to the one with the even
  significand (the default rounding of IEEE 754). \<open>q\<close> is the exponent of the last place
  that binary64 keeps for a number of this size: 53 places, and no exponent under -1074
  (the subnormal numbers). A number that needs no place under \<open>q\<close> is kept as it is; a
  magnitude of \<open>2\<^sup>1\<^sup>0\<^sup>2\<^sup>4\<close> or more, before or after rounding, is an infinity.
\<close>

definition round_double :: "bool \<Rightarrow> nat \<Rightarrow> int \<Rightarrow> double" where
  "round_double s m e =
     (if m = 0 then Finite s 0 0
      else
        let q = max (e + int (bitlen m) - 53) (- 1074) in
        if q \<le> e then (if 1024 < e + int (bitlen m) then Infinity s else Finite s m e)
        else
          let m' = round_half_even m (nat (q - e))
          in if 1024 < q + int (bitlen m') then Infinity s else Finite s m' q)"

text \<open>C's \<open>*\<close> on doubles: the exact product, rounded.\<close>

fun double_mul :: "double \<Rightarrow> double \<Rightarrow> double" where
  "double_mul (Finite s m e) (Finite s' m' e') = round_double (s \<noteq> s') (m * m') (e + e')"
| "double_mul (Finite s m e) (Infinity s') = (if m = 0 then NaN else Infinity (s \<noteq> s'))"
| "double_mul (Infinity s) (Finite s' m' e') = (if m' = 0 then NaN else Infinity (s \<noteq> s'))"
| "double_mul (Infinity s) (Infinity s') = Infinity (s \<noteq> s')"
| "double_mul _ _ = NaN"

text \<open>
  What \<open>printf\<close> prints for a double under \<open>%f\<close>: the value rounded to six decimals (to the
  nearest, a tie to the even one, as the C library rounds the exact value), the integer
  part in decimal, a point and the six decimals. \<open>micros\<close> is the rounded value in
  millionths. A NaN prints as \<open>nan\<close> (the C library puts a minus sign before it when the
  NaN's sign bit is set).
\<close>

definition micros :: "nat \<Rightarrow> int \<Rightarrow> nat" where
  "micros m e =
     (if 0 \<le> e then m * 2 ^ nat e * 1000000
      else round_half_even (m * 1000000) (nat (- e)))"

definition digit :: "nat \<Rightarrow> char" where
  "digit d = ''0123456789'' ! (d mod 10)"

fun decimal :: "nat \<Rightarrow> string" where
  "decimal n = (if n < 10 then [digit n] else decimal (n div 10) @ [digit n])"

declare decimal.simps [simp del]

definition fraction6 :: "nat \<Rightarrow> string" where
  "fraction6 n = map (\<lambda>i. digit (n div 10 ^ i)) [5, 4, 3, 2, 1, 0]"

fun printf_f :: "double \<Rightarrow> string" where
  "printf_f (Finite s m e) =
     (let n = micros m e
      in (if s then ''-'' else '''') @ decimal (n div 1000000) @ ''.'' @ fraction6 (n mod 1000000))"
| "printf_f (Infinity s) = (if s then ''-inf'' else ''inf'')"
| "printf_f NaN = ''nan''"

subsection \<open>Data\<close>

text \<open>
  The struct declarations live in groove.h, file.h, queue.h and buffer.h, which are not
  among the sources; the records below hold the fields that playlist.c reads and writes,
  under the names playlist.c uses for them.
\<close>

record GroovePlaylistItem =
  item_file :: "ptr option"
  item_gain :: double
  item_prev :: "ptr option"
  item_next :: "ptr option"

text \<open>\<open>struct GrooveFilePrivate\<close>: the stream parameters are those of \<open>f->audio_st\<close>.\<close>

record GrooveFile =
  audio_clock :: double
  seek_pos :: "64 word"
  seek_flush :: c_int
  eof :: c_int
  file_abort_request :: c_int
  st_sample_rate :: c_int
  st_channel_layout :: "64 word"
  st_sample_fmt :: c_int
  st_time_base :: "c_int \<times> c_int"

record GrooveAudioFormat =
  sample_rate :: c_int
  channel_layout :: "64 word"
  sample_fmt :: c_int

text \<open>\<open>struct GrooveBufferPrivate\<close>, with the reference count that buffer.c keeps.\<close>

record GrooveBuffer =
  buf_item :: "ptr option"
  buf_pos :: double
  buf_size :: c_int
  ref_count :: int

text \<open>
  \<open>struct GrooveQueue\<close>: the elements in order, front first, and the abort flag. An element
  is a buffer pointer; \<open>end_of_q_sentinel\<close> is the null pointer (line 94), so the sentinel
  is the element \<open>None\<close>. Each queue belongs to exactly one sink (\<open>groove_sink_create\<close>
  sets \<open>context\<close> to the sink and the four callbacks to \<open>audioq_cleanup\<close>, \<open>audioq_put\<close>,
  \<open>audioq_get\<close>, \<open>audioq_purge\<close>), so the queue is kept inside its sink and a callback
  receives the address of that sink for \<open>queue->context\<close>.
\<close>

record GrooveQueue =
  q_elems :: "ptr option list"
  q_abort :: bool

text \<open>
  \<open>struct GrooveSinkPrivate\<close>. The callbacks \<open>flush\<close> and \<open>purge\<close> are the user's; the
  record says whether each is set.
\<close>

record GrooveSink =
  audio_format :: GrooveAudioFormat
  disable_resample :: c_int
  buffer_sample_count :: c_int
  buffer_size :: c_int
  bytes_per_sec :: c_int
  sink_playlist :: "ptr option"
  has_flush :: bool
  has_purge :: bool
  audioq :: "GrooveQueue option"
  audioq_size :: c_int
  min_audioq_size :: c_int

text \<open>
  \<open>struct SinkMap\<close> with its \<open>SinkStack\<close>: the singly linked stack of sinks is the list of
  the sinks' addresses, head first, and the singly linked list of map entries is a list.
  The two filter contexts are positions in the filter graph.
\<close>

record SinkMap =
  stack_head :: "ptr list"
  aformat_ctx :: "nat option"
  abuffersink_ctx :: "nat option"

text \<open>
  The filters that \<open>init_filter_graph\<close> creates, with the arguments it prints for them;
  the volume filter with the text of its arguments.
\<close>

datatype filter =
    Abuffer "c_int \<times> c_int" c_int c_int "64 word"
  | Volume string
  | Asplit c_int
  | Aformat c_int c_int "64 word"
  | Abuffersink

record FilterGraph =
  nodes :: "filter list"
  links :: "(nat \<times> nat \<times> nat \<times> nat) list"

text \<open>
  \<open>struct GroovePlaylistPrivate\<close>. \<open>head\<close>, \<open>tail\<close> and \<open>playlist_volume\<close> are the public
  \<open>externals\<close> (\<open>playlist->volume\<close>); \<open>volume\<close> is the private \<open>p->volume\<close>.
\<close>

record GroovePlaylist =
  head :: "ptr option"
  tail :: "ptr option"
  playlist_volume :: double
  abort_request :: c_int
  paused :: c_int
  last_paused :: c_int
  in_sample_rate :: c_int
  in_channel_layout :: "64 word"
  in_sample_fmt :: c_int
  in_time_base :: "c_int \<times> c_int"
  filter_graph :: "FilterGraph option"
  abuffer_ctx :: "nat option"
  volume_ctx :: "nat option"
  asplit_ctx :: "nat option"
  decode_head :: "ptr option"
  volume :: double
  rebuild_filter_graph_flag :: c_int
  sink_map :: "SinkMap list"
  sink_map_count :: c_int
  filter_volume :: double
  sent_end_of_q :: c_int
  purge_item :: "ptr option"

text \<open>
  The stores. \<open>purge_calls\<close> records the calls of the user's \<open>sink->purge(sink, item)\<close>
  hook and \<open>free_log\<close> the playlist items handed to \<open>av_free\<close>, in order.
\<close>

record state =
  items :: "ptr \<rightharpoonup> GroovePlaylistItem"
  files :: "ptr \<rightharpoonup> GrooveFile"
  buffers :: "ptr \<rightharpoonup> GrooveBuffer"
  sinks :: "ptr \<rightharpoonup> GrooveSink"
  playlists :: "ptr \<rightharpoonup> GroovePlaylist"
  purge_calls :: "(ptr \<times> ptr option) list"
  free_log :: "ptr list"

subsection \<open>Buffers and the queue callbacks\<close>

text \<open>
  Modelled from the spec: \<open>groove_buffer_unref\<close> of buffer.c, which is not among the
  sources. "\<open>unref\<close> decrements and frees on zero."
\<close>

definition groove_buffer_unref :: "state \<Rightarrow> ptr option \<Rightarrow> fault + state" where
  "groove_buffer_unref st buffer =
     (case buffer of
        None \<Rightarrow> Inl Null_deref
      | Some b \<Rightarrow>
          (case buffers st b of
             None \<Rightarrow> Inl Dangling
           | Some buf \<Rightarrow>
               if ref_count buf - 1 = 0
               then Inr (st\<lparr>buffers := (buffers st)(b := None)\<rparr>)
               else Inr (st\<lparr>buffers := (buffers st)(b \<mapsto> buf\<lparr>ref_count := ref_count buf - 1\<rparr>)\<rparr>)))"

text \<open>Lines 549-555.\<close>

definition audioq_put :: "state \<Rightarrow> ptr \<Rightarrow> ptr option \<Rightarrow> fault + state" where
  "audioq_put st ctx obj =
     (case obj of
        None \<Rightarrow> Inr st
      | Some b \<Rightarrow>
          (case sinks st ctx of
             None \<Rightarrow> Inl Dangling
           | Some s \<Rightarrow>
               (case buffers st b of
                  None \<Rightarrow> Inl Dangling
                | Some buffer \<Rightarrow>
                    Inr (st\<lparr>sinks := (sinks st)(ctx \<mapsto> s\<lparr>audioq_size := audioq_size s + buf_size buffer\<rparr>)\<rparr>))))"

text \<open>
  Lines 557-569. Signalling \<open>sink_drain_cond\<close> changes no data, but it needs the sink's
  playlist.
\<close>

definition audioq_get :: "state \<Rightarrow> ptr \<Rightarrow> ptr option \<Rightarrow> fault + state" where
  "audioq_get st ctx obj =
     (case obj of
        None \<Rightarrow> Inr st
      | Some b \<Rightarrow>
          (case sinks st ctx of
             None \<Rightarrow> Inl Dangling
           | Some s \<Rightarrow>
               (case buffers st b of
                  None \<Rightarrow> Inl Dangling
                | Some buffer \<Rightarrow>
                    let s' = s\<lparr>audioq_size := audioq_size s - buf_size buffer\<rparr>;
                        st' = st\<lparr>sinks := (sinks st)(ctx \<mapsto> s')\<rparr>
                    in if sint (audioq_size s') < sint (min_audioq_size s')
                       then (case sink_playlist s' of
                               None \<Rightarrow> Inl Null_deref
                             | Some p \<Rightarrow> if playlists st p = None then Inl Dangling else Inr st')
                       else Inr st')))"

text \<open>Lines 571-579.\<close>

definition audioq_cleanup :: "state \<Rightarrow> ptr \<Rightarrow> ptr option \<Rightarrow> fault + state" where
  "audioq_cleanup st ctx obj =
     (case obj of
        None \<Rightarrow> Inr st
      | Some b \<Rightarrow>
          (case sinks st ctx of
             None \<Rightarrow> Inl Dangling
           | Some s \<Rightarrow>
               (case buffers st b of
                  None \<Rightarrow> Inl Dangling
                | Some buffer \<Rightarrow>
                    groove_buffer_unref
                      (st\<lparr>sinks := (sinks st)(ctx \<mapsto> s\<lparr>audioq_size := audioq_size s - buf_size buffer\<rparr>)\<rparr>)
                      (Some b))))"

text \<open>Lines 581-590. The result is C's truth value of \<open>buffer->item == item\<close>.\<close>

definition audioq_purge :: "state \<Rightarrow> ptr \<Rightarrow> ptr option \<Rightarrow> fault + c_int" where
  "audioq_purge st ctx obj =
     (case obj of
        None \<Rightarrow> Inr 0
      | Some b \<Rightarrow>
          (case sinks st ctx of
             None \<Rightarrow> Inl Dangling
           | Some sink \<Rightarrow>
               (case sink_playlist sink of
                  None \<Rightarrow> Inl Null_deref
                | Some playlist \<Rightarrow>
                    (case playlists st playlist of
                       None \<Rightarrow> Inl Dangling
                     | Some p \<Rightarrow>
                         (case buffers st b of
                            None \<Rightarrow> Inl Dangling
                          | Some buffer \<Rightarrow>
                              Inr (if buf_item buffer = purge_item p then 1 else 0))))))"

subsection \<open>The queue\<close>

text \<open>
  Modelled from the spec: \<open>groove_queue_put\<close> of queue.c, which is not among the sources.
  "\<open>put(item)\<close>: enqueue; returns failure after \<open>abort\<close>", and \<open>on_put\<close> is invoked once
  per element.
\<close>

definition groove_queue_put :: "state \<Rightarrow> ptr \<Rightarrow> ptr option \<Rightarrow> fault + state \<times> c_int" where
  "groove_queue_put st ctx obj =
     (case sinks st ctx of
        None \<Rightarrow> Inl Dangling
      | Some s \<Rightarrow>
          (case audioq s of
             None \<Rightarrow> Inl Null_deref
           | Some q \<Rightarrow>
               if q_abort q then Inr (st, - 1)
               else
                 (case audioq_put
                         (st\<lparr>sinks := (sinks st)(ctx \<mapsto> s\<lparr>audioq := Some (q\<lparr>q_elems := q_elems q @ [obj]\<rparr>)\<rparr>)\<rparr>)
                         ctx obj of
                    Inl e \<Rightarrow> Inl e
                  | Inr st' \<Rightarrow> Inr (st', 0))))"

text \<open>
  Modelled from the spec: \<open>groove_queue_purge\<close> of queue.c. "\<open>purge(pred)\<close>: removes all
  elements for which \<open>pred(e)\<close> is true, invoking \<open>on_cleanup\<close> per removed." The predicate
  and the cleanup are the sink's \<open>audioq_purge\<close> and \<open>audioq_cleanup\<close>.
\<close>

fun purge_elems :: "state \<Rightarrow> ptr \<Rightarrow> ptr option list \<Rightarrow> fault + state \<times> ptr option list" where
  "purge_elems st ctx [] = Inr (st, [])"
| "purge_elems st ctx (obj # rest) =
     (case audioq_purge st ctx obj of
        Inl e \<Rightarrow> Inl e
      | Inr r \<Rightarrow>
          if r \<noteq> 0
          then (case audioq_cleanup st ctx obj of
                  Inl e \<Rightarrow> Inl e
                | Inr st' \<Rightarrow> purge_elems st' ctx rest)
          else (case purge_elems st ctx rest of
                  Inl e \<Rightarrow> Inl e
                | Inr (st', kept) \<Rightarrow> Inr (st', obj # kept)))"

definition set_q_elems :: "state \<Rightarrow> ptr \<Rightarrow> ptr option list \<Rightarrow> fault + state" where
  "set_q_elems st ctx elems =
     (case sinks st ctx of
        None \<Rightarrow> Inl Dangling
      | Some s \<Rightarrow>
          (case audioq s of
             None \<Rightarrow> Inl Null_deref
           | Some q \<Rightarrow> Inr (st\<lparr>sinks := (sinks st)(ctx \<mapsto> s\<lparr>audioq := Some (q\<lparr>q_elems := elems\<rparr>)\<rparr>)\<rparr>)))"

definition groove_queue_purge :: "state \<Rightarrow> ptr \<Rightarrow> fault + state" where
  "groove_queue_purge st ctx =
     (case sinks st ctx of
        None \<Rightarrow> Inl Dangling
      | Some s \<Rightarrow>
          (case audioq s of
             None \<Rightarrow> Inl Null_deref
           | Some q \<Rightarrow>
               (case purge_elems st ctx (q_elems q) of
                  Inl e \<Rightarrow> Inl e
                | Inr (st', kept) \<Rightarrow> set_q_elems st' ctx kept)))"

text \<open>
  Modelled from the spec: \<open>groove_queue_flush\<close>, \<open>groove_queue_abort\<close> and
  \<open>groove_queue_reset\<close> of queue.c. "\<open>flush()\<close>: drains, invoking \<open>on_cleanup\<close> per element";
  "\<open>abort()\<close>: unblocks all waiters; subsequent \<open>put\<close> fails until \<open>reset()\<close>";
  "\<open>reset()\<close>: clears \<open>abort\<close> state".
\<close>

fun flush_elems :: "state \<Rightarrow> ptr \<Rightarrow> ptr option list \<Rightarrow> fault + state" where
  "flush_elems st ctx [] = Inr st"
| "flush_elems st ctx (obj # rest) =
     (case audioq_cleanup st ctx obj of
        Inl e \<Rightarrow> Inl e
      | Inr st' \<Rightarrow> flush_elems st' ctx rest)"

definition groove_queue_flush :: "state \<Rightarrow> ptr \<Rightarrow> fault + state" where
  "groove_queue_flush st ctx =
     (case sinks st ctx of
        None \<Rightarrow> Inl Dangling
      | Some s \<Rightarrow>
          (case audioq s of
             None \<Rightarrow> Inl Null_deref
           | Some q \<Rightarrow>
               (case flush_elems st ctx (q_elems q) of
                  Inl e \<Rightarrow> Inl e
                | Inr st' \<Rightarrow> set_q_elems st' ctx [])))"

definition set_q_abort :: "state \<Rightarrow> ptr \<Rightarrow> bool \<Rightarrow> fault + state" where
  "set_q_abort st ctx a =
     (case sinks st ctx of
        None \<Rightarrow> Inl Dangling
      | Some s \<Rightarrow>
          (case audioq s of
             None \<Rightarrow> Inl Null_deref
           | Some q \<Rightarrow> Inr (st\<lparr>sinks := (sinks st)(ctx \<mapsto> s\<lparr>audioq := Some (q\<lparr>q_abort := a\<rparr>)\<rparr>)\<rparr>)))"

definition groove_queue_abort :: "state \<Rightarrow> ptr \<Rightarrow> fault + state" where
  "groove_queue_abort st ctx = set_q_abort st ctx True"

definition groove_queue_reset :: "state \<Rightarrow> ptr \<Rightarrow> fault + state" where
  "groove_queue_reset st ctx = set_q_abort st ctx False"

subsection \<open>Visiting every sink\<close>

text \<open>
  Lines 427-442. The inner loop walks one stack and the outer loop the map entries; a
  value other than the default ends both. The callbacks passed by the callers modelled
  here (\<open>sink_is_full\<close>, \<open>sink_signal_end\<close>, \<open>purge_sink\<close>) do not write the sink map, so
  the walk follows the map as it is on entry.
\<close>

fun every_sink_stack ::
  "(state \<Rightarrow> ptr \<Rightarrow> fault + state \<times> c_int) \<Rightarrow> c_int \<Rightarrow> state \<Rightarrow> ptr list \<Rightarrow> fault + state \<times> c_int option"
where
  "every_sink_stack func default_value st [] = Inr (st, None)"
| "every_sink_stack func default_value st (sink # stack) =
     (case func st sink of
        Inl e \<Rightarrow> Inl e
      | Inr (st', v) \<Rightarrow>
          if v \<noteq> default_value then Inr (st', Some v)
          else every_sink_stack func default_value st' stack)"

fun every_sink_map ::
  "(state \<Rightarrow> ptr \<Rightarrow> fault + state \<times> c_int) \<Rightarrow> c_int \<Rightarrow> state \<Rightarrow> SinkMap list \<Rightarrow> fault + state \<times> c_int"
where
  "every_sink_map func default_value st [] = Inr (st, default_value)"
| "every_sink_map func default_value st (map_item # rest) =
     (case every_sink_stack func default_value st (stack_head map_item) of
        Inl e \<Rightarrow> Inl e
      | Inr (st', Some v) \<Rightarrow> Inr (st', v)
      | Inr (st', None) \<Rightarrow> every_sink_map func default_value st' rest)"

definition every_sink ::
  "state \<Rightarrow> ptr \<Rightarrow> (state \<Rightarrow> ptr \<Rightarrow> fault + state \<times> c_int) \<Rightarrow> c_int \<Rightarrow> fault + state \<times> c_int"
where
  "every_sink st playlist func default_value =
     (case playlists st playlist of
        None \<Rightarrow> Inl Dangling
      | Some p \<Rightarrow> every_sink_map func default_value st (sink_map p))"

subsection \<open>Removing an item\<close>

text \<open>
  Lines 979-992. The user's hook \<open>sink->purge\<close> is outside the program; its call is
  recorded.
\<close>

definition purge_sink :: "state \<Rightarrow> ptr \<Rightarrow> fault + state \<times> c_int" where
  "purge_sink st sink =
     (case groove_queue_purge st sink of
        Inl e \<Rightarrow> Inl e
      | Inr st' \<Rightarrow>
          (case sinks st' sink of
             None \<Rightarrow> Inl Dangling
           | Some s \<Rightarrow>
               (case sink_playlist s of
                  None \<Rightarrow> Inl Null_deref
                | Some playlist \<Rightarrow>
                    (case playlists st' playlist of
                       None \<Rightarrow> Inl Dangling
                     | Some p \<Rightarrow>
                         if has_purge s
                         then Inr (st'\<lparr>purge_calls := purge_calls st' @ [(sink, purge_item p)]\<rparr>, 0)
                         else Inr (st', 0)))))"

text \<open>The statements of lines 1000-1013, one function each.\<close>

definition skip_decode_head :: "state \<Rightarrow> ptr \<Rightarrow> ptr \<Rightarrow> fault + state" where
  "skip_decode_head st playlist item =
     (case playlists st playlist of
        None \<Rightarrow> Inl Dangling
      | Some p \<Rightarrow>
          if Some item = decode_head p
          then (case items st item of
                  None \<Rightarrow> Inl Dangling
                | Some it \<Rightarrow> Inr (st\<lparr>playlists := (playlists st)(playlist \<mapsto> p\<lparr>decode_head := item_next it\<rparr>)\<rparr>))
          else Inr st)"

definition unlink_prev :: "state \<Rightarrow> ptr \<Rightarrow> ptr \<Rightarrow> fault + state" where
  "unlink_prev st playlist item =
     (case items st item of
        None \<Rightarrow> Inl Dangling
      | Some it \<Rightarrow>
          (case item_prev it of
             Some pr \<Rightarrow>
               (case items st pr of
                  None \<Rightarrow> Inl Dangling
                | Some prev_it \<Rightarrow> Inr (st\<lparr>items := (items st)(pr \<mapsto> prev_it\<lparr>item_next := item_next it\<rparr>)\<rparr>))
           | None \<Rightarrow>
               (case playlists st playlist of
                  None \<Rightarrow> Inl Dangling
                | Some p \<Rightarrow> Inr (st\<lparr>playlists := (playlists st)(playlist \<mapsto> p\<lparr>head := item_next it\<rparr>)\<rparr>))))"

definition unlink_next :: "state \<Rightarrow> ptr \<Rightarrow> ptr \<Rightarrow> fault + state" where
  "unlink_next st playlist item =
     (case items st item of
        None \<Rightarrow> Inl Dangling
      | Some it \<Rightarrow>
          (case item_next it of
             Some nx \<Rightarrow>
               (case items st nx of
                  None \<Rightarrow> Inl Dangling
                | Some next_it \<Rightarrow> Inr (st\<lparr>items := (items st)(nx \<mapsto> next_it\<lparr>item_prev := item_prev it\<rparr>)\<rparr>))
           | None \<Rightarrow>
               (case playlists st playlist of
                  None \<Rightarrow> Inl Dangling
                | Some p \<Rightarrow> Inr (st\<lparr>playlists := (playlists st)(playlist \<mapsto> p\<lparr>tail := item_prev it\<rparr>)\<rparr>))))"

definition set_purge_item :: "state \<Rightarrow> ptr \<Rightarrow> ptr option \<Rightarrow> fault + state" where
  "set_purge_item st playlist item =
     (case playlists st playlist of
        None \<Rightarrow> Inl Dangling
      | Some p \<Rightarrow> Inr (st\<lparr>playlists := (playlists st)(playlist \<mapsto> p\<lparr>purge_item := item\<rparr>)\<rparr>))"

definition av_free_item :: "state \<Rightarrow> ptr \<Rightarrow> state" where
  "av_free_item st item = st\<lparr>items := (items st)(item := None), free_log := free_log st @ [item]\<rparr>"

text \<open>
  Lines 994-1026. The item is a non-null pointer: \<open>groove_playlist_clear\<close> and the API's
  users pass an item of the playlist.
\<close>

definition groove_playlist_remove :: "state \<Rightarrow> ptr \<Rightarrow> ptr \<Rightarrow> fault + state" where
  "groove_playlist_remove st playlist item =
     (case skip_decode_head st playlist item of
        Inl e \<Rightarrow> Inl e
      | Inr st1 \<Rightarrow>
          (case unlink_prev st1 playlist item of
             Inl e \<Rightarrow> Inl e
           | Inr st2 \<Rightarrow>
               (case unlink_next st2 playlist item of
                  Inl e \<Rightarrow> Inl e
                | Inr st3 \<Rightarrow>
                    (case set_purge_item st3 playlist (Some item) of
                       Inl e \<Rightarrow> Inl e
                     | Inr st4 \<Rightarrow>
                         (case every_sink st4 playlist purge_sink 0 of
                            Inl e \<Rightarrow> Inl e
                          | Inr (st5, _) \<Rightarrow>
                              (case set_purge_item st5 playlist None of
                                 Inl e \<Rightarrow> Inl e
                               | Inr st6 \<Rightarrow> Inr (av_free_item st6 item)))))))"

subsection \<open>Inserting an item\<close>

definition set_item_prev :: "state \<Rightarrow> ptr \<Rightarrow> ptr option \<Rightarrow> fault + state" where
  "set_item_prev st a v =
     (case items st a of
        None \<Rightarrow> Inl Dangling
      | Some it \<Rightarrow> Inr (st\<lparr>items := (items st)(a \<mapsto> it\<lparr>item_prev := v\<rparr>)\<rparr>))"

definition set_item_next :: "state \<Rightarrow> ptr \<Rightarrow> ptr option \<Rightarrow> fault + state" where
  "set_item_next st a v =
     (case items st a of
        None \<Rightarrow> Inl Dangling
      | Some it \<Rightarrow> Inr (st\<lparr>items := (items st)(a \<mapsto> it\<lparr>item_next := v\<rparr>)\<rparr>))"

text \<open>Lines 962-965: \<open>f->seek_pos = 0; f->seek_flush = 0\<close>.\<close>

definition seek_to_start :: "state \<Rightarrow> ptr option \<Rightarrow> fault + state" where
  "seek_to_start st file =
     (case file of
        None \<Rightarrow> Inl Null_deref
      | Some a \<Rightarrow>
          (case files st a of
             None \<Rightarrow> Inl Dangling
           | Some f \<Rightarrow> Inr (st\<lparr>files := (files st)(a \<mapsto> f\<lparr>seek_pos := 0, seek_flush := 0\<rparr>)\<rparr>)))"

text \<open>
  Lines 932-977. \<open>new_item\<close> is what \<open>av_mallocz\<close> returns: \<open>None\<close> when the allocation
  fails, else the address of a zeroed item. The result is the returned pointer.
\<close>

definition groove_playlist_insert ::
  "state \<Rightarrow> ptr \<Rightarrow> ptr option \<Rightarrow> double \<Rightarrow> ptr option \<Rightarrow> ptr option \<Rightarrow> fault + state \<times> ptr option"
where
  "groove_playlist_insert st playlist file gain next_item new_item =
     (case new_item of
        None \<Rightarrow> Inr (st, None)
      | Some item \<Rightarrow>
          let st0 = st\<lparr>items := (items st)(item \<mapsto>
                      \<lparr>item_file = file, item_gain = gain, item_prev = None, item_next = next_item\<rparr>)\<rparr>
          in
          (case playlists st0 playlist of
             None \<Rightarrow> Inl Dangling
           | Some p \<Rightarrow>
               (case next_item of
                  Some n \<Rightarrow>
                    (case items st0 n of
                       None \<Rightarrow> Inl Dangling
                     | Some next_it \<Rightarrow>
                         (case item_prev next_it of
                            Some pr \<Rightarrow>
                              (case set_item_prev st0 item (Some pr) of
                                 Inl e \<Rightarrow> Inl e
                               | Inr st1 \<Rightarrow>
                                   (case set_item_next st1 pr (Some item) of
                                      Inl e \<Rightarrow> Inl e
                                    | Inr st2 \<Rightarrow>
                                        (case set_item_prev st2 n (Some item) of
                                           Inl e \<Rightarrow> Inl e
                                         | Inr st3 \<Rightarrow> Inr (st3, Some item))))
                          | None \<Rightarrow>
                              Inr (st0\<lparr>playlists := (playlists st0)(playlist \<mapsto> p\<lparr>head := Some item\<rparr>)\<rparr>,
                                   Some item)))
                | None \<Rightarrow>
                    (case head p of
                       None \<Rightarrow>
                         (case seek_to_start
                                 (st0\<lparr>playlists := (playlists st0)(playlist \<mapsto>
                                    p\<lparr>head := Some item, tail := Some item\<rparr>)\<rparr>) file of
                            Inl e \<Rightarrow> Inl e
                          | Inr st1 \<Rightarrow>
                              Inr (st1\<lparr>playlists := (playlists st1)(playlist \<mapsto>
                                     p\<lparr>head := Some item, tail := Some item, decode_head := Some item\<rparr>)\<rparr>,
                                   Some item))
                     | Some _ \<Rightarrow>
                         (case set_item_prev st0 item (tail p) of
                            Inl e \<Rightarrow> Inl e
                          | Inr st1 \<Rightarrow>
                              (case tail p of
                                 None \<Rightarrow> Inl Null_deref
                               | Some t \<Rightarrow>
                                   (case set_item_next st1 t (Some item) of
                                      Inl e \<Rightarrow> Inl e
                                    | Inr st2 \<Rightarrow>
                                        Inr (st2\<lparr>playlists := (playlists st2)(playlist \<mapsto>
                                               p\<lparr>tail := Some item\<rparr>)\<rparr>,
                                             Some item))))))))"

subsection \<open>Clearing the playlist\<close>

text \<open>
  Lines 1028-1036. The loop reads \<open>node->next\<close> before it removes the node. Nothing bounds
  the walk for an arbitrary store, so a run that never ends is the value \<open>None\<close>.
\<close>

partial_function (option) clear_loop :: "state \<Rightarrow> ptr \<Rightarrow> ptr option \<Rightarrow> (fault + state) option" where
  "clear_loop st playlist node =
     (case node of
        None \<Rightarrow> Some (Inr st)
      | Some n \<Rightarrow>
          (case items st n of
             None \<Rightarrow> Some (Inl Dangling)
           | Some it \<Rightarrow>
               (case groove_playlist_remove st playlist n of
                  Inl e \<Rightarrow> Some (Inl e)
                | Inr st' \<Rightarrow> clear_loop st' playlist (item_next it))))"

definition groove_playlist_clear :: "state \<Rightarrow> ptr \<Rightarrow> (fault + state) option" where
  "groove_playlist_clear st playlist =
     (case playlists st playlist of
        None \<Rightarrow> Some (Inl Dangling)
      | Some p \<Rightarrow>
          (case head p of
             None \<Rightarrow> Some (Inr st)
           | Some _ \<Rightarrow> clear_loop st playlist (head p)))"

text \<open>
  The reference definition, from the spec's words: "\<open>clear()\<close>: repeatedly \<open>remove(head)\<close>
  until empty."
\<close>

partial_function (option) clear_by_remove_head :: "state \<Rightarrow> ptr \<Rightarrow> (fault + state) option" where
  "clear_by_remove_head st playlist =
     (case playlists st playlist of
        None \<Rightarrow> Some (Inl Dangling)
      | Some p \<Rightarrow>
          (case head p of
             None \<Rightarrow> Some (Inr st)
           | Some h \<Rightarrow>
               (case groove_playlist_remove st playlist h of
                  Inl e \<Rightarrow> Some (Inl e)
                | Inr st' \<Rightarrow> clear_by_remove_head st' playlist)))"

subsection \<open>The position\<close>

text \<open>
  Lines 1061-1076. An out-parameter is the content of the cell it points to, or \<open>None\<close> for
  a null pointer; the result is the content of the two cells on return.
\<close>

definition groove_playlist_position ::
  "state \<Rightarrow> ptr \<Rightarrow> ptr option option \<Rightarrow> double option \<Rightarrow> fault + ptr option option \<times> double option"
where
  "groove_playlist_position st playlist item seconds =
     (case playlists st playlist of
        None \<Rightarrow> Inl Dangling
      | Some p \<Rightarrow>
          let item' = (case item of None \<Rightarrow> None | Some _ \<Rightarrow> Some (decode_head p)) in
          (case seconds of
             None \<Rightarrow> Inr (item', None)
           | Some secs \<Rightarrow>
               (case decode_head p of
                  None \<Rightarrow> Inr (item', Some secs)
                | Some d \<Rightarrow>
                    (case items st d of
                       None \<Rightarrow> Inl Dangling
                     | Some it \<Rightarrow>
                         (case item_file it of
                            None \<Rightarrow> Inl Null_deref
                          | Some fa \<Rightarrow>
                              (case files st fa of
                                 None \<Rightarrow> Inl Dangling
                               | Some f \<Rightarrow> Inr (item', Some (audio_clock f))))))))"

subsection \<open>The sink map\<close>

text \<open>Lines 643-654. The result is a C truth value: zero or not.\<close>

definition sink_formats_equal :: "GrooveSink \<Rightarrow> GrooveSink \<Rightarrow> c_int" where
  "sink_formats_equal a b =
     (if buffer_sample_count a \<noteq> buffer_sample_count b then 0
      else if disable_resample a \<noteq> 0 then disable_resample b
      else if disable_resample b \<noteq> 0 then 0
      else if sample_rate (audio_format a) = sample_rate (audio_format b) \<and>
              channel_layout (audio_format a) = channel_layout (audio_format b) \<and>
              sample_fmt (audio_format a) = sample_fmt (audio_format b)
           then 1 else 0)"

text \<open>
  Lines 656-696, the inner loop: the stack without the first entry for \<open>sink\<close>, or \<open>None\<close>
  when the stack has no such entry.
\<close>

fun remove_from_stack :: "ptr \<Rightarrow> ptr list \<Rightarrow> ptr list option" where
  "remove_from_stack sink [] = None"
| "remove_from_stack sink (item_sink # rest) =
     (if item_sink = sink then Some rest
      else (case remove_from_stack sink rest of
              None \<Rightarrow> None
            | Some rest' \<Rightarrow> Some (item_sink # rest')))"

text \<open>
  The outer loop: the map without the first entry for \<open>sink\<close>, and whether a map item was
  deleted because its stack became empty.
\<close>

fun remove_from_map :: "ptr \<Rightarrow> SinkMap list \<Rightarrow> (SinkMap list \<times> bool) option" where
  "remove_from_map sink [] = None"
| "remove_from_map sink (map_item # rest) =
     (case remove_from_stack sink (stack_head map_item) of
        Some [] \<Rightarrow> Some (rest, True)
      | Some (s # stack) \<Rightarrow> Some (map_item\<lparr>stack_head := s # stack\<rparr> # rest, False)
      | None \<Rightarrow>
          (case remove_from_map sink rest of
             None \<Rightarrow> None
           | Some (rest', deleted) \<Rightarrow> Some (map_item # rest', deleted)))"

definition remove_sink_from_map :: "state \<Rightarrow> ptr \<Rightarrow> fault + state \<times> c_int" where
  "remove_sink_from_map st sink =
     (case sinks st sink of
        None \<Rightarrow> Inl Dangling
      | Some s \<Rightarrow>
          (case sink_playlist s of
             None \<Rightarrow> Inl Null_deref
           | Some playlist \<Rightarrow>
               (case playlists st playlist of
                  None \<Rightarrow> Inl Dangling
                | Some p \<Rightarrow>
                    (case remove_from_map sink (sink_map p) of
                       None \<Rightarrow> Inr (st, - 1)
                     | Some (m, deleted) \<Rightarrow>
                         Inr (st\<lparr>playlists := (playlists st)(playlist \<mapsto>
                                p\<lparr>sink_map := m,
                                  sink_map_count := (if deleted then sink_map_count p - 1
                                                     else sink_map_count p)\<rparr>)\<rparr>,
                              0)))))"

text \<open>
  Lines 707-718: push the sink onto the stack of the first map item whose example sink
  (the head of its stack) has an equal format; \<open>None\<close> when there is no such item.
\<close>

fun push_matching :: "state \<Rightarrow> ptr \<Rightarrow> SinkMap list \<Rightarrow> fault + SinkMap list option" where
  "push_matching st sink [] = Inr None"
| "push_matching st sink (map_item # rest) =
     (case stack_head map_item of
        [] \<Rightarrow> Inl Null_deref
      | example # _ \<Rightarrow>
          (case sinks st example of
             None \<Rightarrow> Inl Dangling
           | Some example_sink \<Rightarrow>
               (case sinks st sink of
                  None \<Rightarrow> Inl Dangling
                | Some s \<Rightarrow>
                    if sink_formats_equal example_sink s \<noteq> 0
                    then Inr (Some (map_item\<lparr>stack_head := sink # stack_head map_item\<rparr> # rest))
                    else (case push_matching st sink rest of
                            Inl e \<Rightarrow> Inl e
                          | Inr None \<Rightarrow> Inr None
                          | Inr (Some rest') \<Rightarrow> Inr (Some (map_item # rest'))))))"

text \<open>
  Lines 698-734. \<open>stack_entry\<close> and \<open>map_entry\<close> are what the two calls of \<open>av_mallocz\<close>
  return (\<open>None\<close> when the allocation fails). Each is written through before it is
  tested.
\<close>

definition add_sink_to_map :: "state \<Rightarrow> ptr \<Rightarrow> ptr \<Rightarrow> ptr option \<Rightarrow> ptr option \<Rightarrow> fault + state \<times> c_int" where
  "add_sink_to_map st playlist sink stack_entry map_entry =
     (case stack_entry of
        None \<Rightarrow> Inl Null_deref
      | Some _ \<Rightarrow>
          if stack_entry = None then Inr (st, - 1)
          else
            (case playlists st playlist of
               None \<Rightarrow> Inl Dangling
             | Some p \<Rightarrow>
                 (case push_matching st sink (sink_map p) of
                    Inl e \<Rightarrow> Inl e
                  | Inr (Some m) \<Rightarrow>
                      Inr (st\<lparr>playlists := (playlists st)(playlist \<mapsto> p\<lparr>sink_map := m\<rparr>)\<rparr>, 0)
                  | Inr None \<Rightarrow>
                      (case map_entry of
                         None \<Rightarrow> Inl Null_deref
                       | Some _ \<Rightarrow>
                           if map_entry = None then Inr (st, - 1)
                           else
                             Inr (st\<lparr>playlists := (playlists st)(playlist \<mapsto>
                                    p\<lparr>sink_map :=
                                        \<lparr>stack_head = [sink], aformat_ctx = None, abuffersink_ctx = None\<rparr>
                                        # sink_map p,
                                      sink_map_count := sink_map_count p + 1\<rparr>)\<rparr>,
                                  0)))))"

text \<open>Lines 736-758.\<close>

definition groove_sink_detach :: "state \<Rightarrow> ptr \<Rightarrow> fault + state \<times> c_int" where
  "groove_sink_detach st sink =
     (case sinks st sink of
        None \<Rightarrow> Inl Dangling
      | Some s \<Rightarrow>
          (case sink_playlist s of
             None \<Rightarrow> Inr (st, - 1)
           | Some playlist \<Rightarrow>
               (case (if audioq s \<noteq> None
                      then (case groove_queue_abort st sink of
                              Inl e \<Rightarrow> Inl e
                            | Inr st' \<Rightarrow> groove_queue_flush st' sink)
                      else Inr st) of
                  Inl e \<Rightarrow> Inl e
                | Inr st1 \<Rightarrow>
                    (case remove_sink_from_map st1 sink of
                       Inl e \<Rightarrow> Inl e
                     | Inr (st2, err) \<Rightarrow>
                         (case sinks st2 sink of
                            None \<Rightarrow> Inl Dangling
                          | Some s2 \<Rightarrow>
                              Inr (st2\<lparr>sinks := (sinks st2)(sink \<mapsto> s2\<lparr>sink_playlist := None\<rparr>)\<rparr>,
                                   err))))))"

text \<open>
  Lines 760-791. \<open>av_get_channel_layout_nb_channels\<close> and \<open>av_get_bytes_per_sample\<close> belong
  to libavutil and are parameters.
\<close>

definition groove_sink_attach ::
  "(64 word \<Rightarrow> c_int) \<Rightarrow> (c_int \<Rightarrow> c_int) \<Rightarrow> state \<Rightarrow> ptr \<Rightarrow> ptr \<Rightarrow> ptr option \<Rightarrow> ptr option \<Rightarrow>
   fault + state \<times> c_int"
where
  "groove_sink_attach av_get_channel_layout_nb_channels av_get_bytes_per_sample
       st sink playlist stack_entry map_entry =
     (case sinks st sink of
        None \<Rightarrow> Inl Dangling
      | Some s \<Rightarrow>
          let channel_count = av_get_channel_layout_nb_channels (channel_layout (audio_format s));
              bytes_per_frame = channel_count * av_get_bytes_per_sample (sample_fmt (audio_format s));
              st1 = st\<lparr>sinks := (sinks st)(sink \<mapsto>
                      s\<lparr>bytes_per_sec := bytes_per_frame * sample_rate (audio_format s),
                        min_audioq_size := buffer_size s * bytes_per_frame\<rparr>)\<rparr>
          in
          if playlists st1 playlist = None then Inl Dangling
          else
            (case add_sink_to_map st1 playlist sink stack_entry map_entry of
               Inl e \<Rightarrow> Inl e
             | Inr (st2, err) \<Rightarrow>
                 if sint err < 0 then Inr (st2, err)
                 else
                   (case groove_queue_reset st2 sink of
                      Inl e \<Rightarrow> Inl e
                    | Inr st3 \<Rightarrow>
                        (case sinks st3 sink of
                           None \<Rightarrow> Inl Dangling
                         | Some s3 \<Rightarrow>
                             Inr (st3\<lparr>sinks := (sinks st3)(sink \<mapsto> s3\<lparr>sink_playlist := Some playlist\<rparr>)\<rparr>,
                                  0)))))"

subsection \<open>The filter graph\<close>

text \<open>
  libavfilter is a parameter: whether \<open>avfilter_graph_alloc\<close> returns a graph, and the
  results of \<open>avfilter_graph_create_filter\<close> (by the filter and its arguments),
  \<open>avfilter_link\<close> (by source, source pad, destination, destination pad) and
  \<open>avfilter_graph_config\<close>. A negative result is an error.
\<close>

record avfilter =
  graph_alloc :: bool
  create_filter :: "filter \<Rightarrow> c_int"
  link_filters :: "nat \<Rightarrow> nat \<Rightarrow> nat \<Rightarrow> nat \<Rightarrow> c_int"
  graph_config :: "FilterGraph \<Rightarrow> c_int"

text \<open>
  \<open>avfilter_graph_create_filter(&ctx, ...)\<close> followed by \<open>if (err < 0) return err\<close>: on the
  left the error returned, with the graph; on the right the graph with the new filter and
  the filter's position. \<open>avfilter_link\<close> likewise.
\<close>

definition graph_create_filter :: "avfilter \<Rightarrow> FilterGraph \<Rightarrow> filter \<Rightarrow> c_int \<times> FilterGraph + FilterGraph \<times> nat" where
  "graph_create_filter av g f =
     (let err = create_filter av f
      in if sint err < 0 then Inl (err, g)
         else Inr (g\<lparr>nodes := nodes g @ [f]\<rparr>, length (nodes g)))"

definition graph_link :: "avfilter \<Rightarrow> FilterGraph \<Rightarrow> nat \<Rightarrow> nat \<Rightarrow> nat \<Rightarrow> nat \<Rightarrow> c_int \<times> FilterGraph + FilterGraph" where
  "graph_link av g src src_pad dst dst_pad =
     (let err = link_filters av src src_pad dst dst_pad
      in if sint err < 0 then Inl (err, g)
         else Inr (g\<lparr>links := links g @ [(src, src_pad, dst, dst_pad)]\<rparr>))"

text \<open>Lines 303-305.\<close>

definition clamp_volume :: "double \<Rightarrow> double" where
  "clamp_volume v =
     (let vol = v;
          vol = (if double_gt vol (dbl 1 0) then dbl 1 0 else vol);
          vol = (if double_lt vol (dbl 0 0) then dbl 0 0 else vol)
      in vol)"

text \<open>
  Line 309: \<open>snprintf(p->strbuf, sizeof(p->strbuf), "volume=%f", vol)\<close>, with the 512
  bytes of \<open>strbuf\<close> (line 55).
\<close>

definition snprintf_volume :: "double \<Rightarrow> string" where
  "snprintf_volume vol = take 511 (''volume='' @ printf_f vol)"

text \<open>
  Lines 303-323. On the left an error return; on the right the graph goes on. Both carry
  the graph and the new \<open>volume_ctx\<close>, the right also the context to link from next
  (\<open>audio_src_ctx\<close>).
\<close>

definition init_volume ::
  "avfilter \<Rightarrow> FilterGraph \<Rightarrow> double \<Rightarrow> nat \<Rightarrow> c_int \<times> FilterGraph \<times> nat option + FilterGraph \<times> nat option \<times> nat"
where
  "init_volume av g v audio_src_ctx =
     (let vol = clamp_volume v
      in if double_eq vol (dbl 1 0) then Inr (g, None, audio_src_ctx)
         else
           (case graph_create_filter av g (Volume (snprintf_volume vol)) of
              Inl (err, g1) \<Rightarrow> Inl (err, g1, None)
            | Inr (g1, c) \<Rightarrow>
                (case graph_link av g1 audio_src_ctx 0 c 0 of
                   Inl (err, g2) \<Rightarrow> Inl (err, g2, Some c)
                 | Inr g2 \<Rightarrow> Inr (g2, Some c, c))))"

text \<open>Lines 325-343, in the same shape, for \<open>asplit_ctx\<close>.\<close>

definition init_asplit ::
  "avfilter \<Rightarrow> FilterGraph \<Rightarrow> c_int \<Rightarrow> nat \<Rightarrow> c_int \<times> FilterGraph \<times> nat option + FilterGraph \<times> nat option \<times> nat"
where
  "init_asplit av g count audio_src_ctx =
     (if sint count < 2 then Inr (g, None, audio_src_ctx)
      else
        (case graph_create_filter av g (Asplit count) of
           Inl (err, g1) \<Rightarrow> Inl (err, g1, None)
         | Inr (g1, c) \<Rightarrow>
             (case graph_link av g1 audio_src_ctx 0 c 0 of
                Inl (err, g2) \<Rightarrow> Inl (err, g2, Some c)
              | Inr g2 \<Rightarrow> Inr (g2, Some c, c))))"

text \<open>Lines 352-376, in the same shape, for \<open>aformat_ctx\<close> and \<open>inner_audio_src_ctx\<close>.\<close>

definition init_aformat ::
  "avfilter \<Rightarrow> FilterGraph \<Rightarrow> GrooveSink \<Rightarrow> nat \<Rightarrow> nat \<Rightarrow>
   c_int \<times> FilterGraph \<times> nat option + FilterGraph \<times> nat option \<times> nat"
where
  "init_aformat av g example_sink audio_src_ctx pad_index =
     (if disable_resample example_sink \<noteq> 0 then Inr (g, None, audio_src_ctx)
      else
        (case graph_create_filter av g
                (Aformat (sample_fmt (audio_format example_sink))
                   (sample_rate (audio_format example_sink))
                   (channel_layout (audio_format example_sink))) of
           Inl (err, g1) \<Rightarrow> Inl (err, g1, None)
         | Inr (g1, c) \<Rightarrow>
             (case graph_link av g1 audio_src_ctx pad_index c 0 of
                Inl (err, g2) \<Rightarrow> Inl (err, g2, Some c)
              | Inr g2 \<Rightarrow> Inr (g2, Some c, c))))"

text \<open>Lines 378-389, for \<open>abuffersink_ctx\<close>.\<close>

definition init_abuffersink ::
  "avfilter \<Rightarrow> FilterGraph \<Rightarrow> nat \<Rightarrow> c_int \<times> FilterGraph \<times> nat option + FilterGraph \<times> nat option"
where
  "init_abuffersink av g inner_audio_src_ctx =
     (case graph_create_filter av g Abuffersink of
        Inl (err, g1) \<Rightarrow> Inl (err, g1, None)
      | Inr (g1, c) \<Rightarrow>
          (case graph_link av g1 inner_audio_src_ctx 0 c 0 of
             Inl (err, g2) \<Rightarrow> Inl (err, g2, Some c)
           | Inr g2 \<Rightarrow> Inr (g2, Some c)))"

text \<open>
  Lines 345-393, the loop over the map items: the error returned from inside the loop,
  if any, with the graph and the map items as the loop leaves them.
\<close>

fun init_sink_chains ::
  "avfilter \<Rightarrow> state \<Rightarrow> FilterGraph \<Rightarrow> nat \<Rightarrow> nat \<Rightarrow> SinkMap list \<Rightarrow>
   fault + c_int option \<times> FilterGraph \<times> SinkMap list"
where
  "init_sink_chains av st g audio_src_ctx pad_index [] = Inr (None, g, [])"
| "init_sink_chains av st g audio_src_ctx pad_index (map_item # rest) =
     (case stack_head map_item of
        [] \<Rightarrow> Inl Null_deref
      | example # _ \<Rightarrow>
          (case sinks st example of
             None \<Rightarrow> Inl Dangling
           | Some example_sink \<Rightarrow>
               (case init_aformat av g example_sink audio_src_ctx pad_index of
                  Inl (err, g1, af) \<Rightarrow> Inr (Some err, g1, map_item\<lparr>aformat_ctx := af\<rparr> # rest)
                | Inr (g1, af, inner_audio_src_ctx) \<Rightarrow>
                    (case init_abuffersink av g1 inner_audio_src_ctx of
                       Inl (err, g2, ab) \<Rightarrow>
                         Inr (Some err, g2, map_item\<lparr>aformat_ctx := af, abuffersink_ctx := ab\<rparr> # rest)
                     | Inr (g2, ab) \<Rightarrow>
                         (case init_sink_chains av st g2 audio_src_ctx (pad_index + 1) rest of
                            Inl e \<Rightarrow> Inl e
                          | Inr (r, g3, rest') \<Rightarrow>
                              Inr (r, g3, map_item\<lparr>aformat_ctx := af, abuffersink_ctx := ab\<rparr> # rest'))))))"

text \<open>
  Lines 254-404. The old graph is freed and a new one built; an error return leaves the
  playlist with what has been built so far.
\<close>

definition init_filter_graph :: "avfilter \<Rightarrow> state \<Rightarrow> ptr \<Rightarrow> ptr option \<Rightarrow> fault + state \<times> c_int" where
  "init_filter_graph av st playlist file =
     (case playlists st playlist of
        None \<Rightarrow> Inl Dangling
      | Some p \<Rightarrow>
          (case file of
             None \<Rightarrow> Inl Null_deref
           | Some fa \<Rightarrow>
               (case files st fa of
                  None \<Rightarrow> Inl Dangling
                | Some f \<Rightarrow>
                    let put = (\<lambda>p'. st\<lparr>playlists := (playlists st)(playlist \<mapsto> p')\<rparr>) in
                    if \<not> graph_alloc av then Inr (put (p\<lparr>filter_graph := None\<rparr>), - 1)
                    else
                      let p1 = p\<lparr>in_sample_rate := st_sample_rate f,
                                 in_channel_layout := st_channel_layout f,
                                 in_sample_fmt := st_sample_fmt f,
                                 in_time_base := st_time_base f\<rparr>
                      in
                      (case graph_create_filter av \<lparr>nodes = [], links = []\<rparr>
                              (Abuffer (st_time_base f) (st_sample_rate f) (st_sample_fmt f)
                                 (st_channel_layout f)) of
                         Inl (err, g) \<Rightarrow>
                           Inr (put (p1\<lparr>filter_graph := Some g, abuffer_ctx := None\<rparr>), err)
                       | Inr (g, ab) \<Rightarrow>
                           let p2 = p1\<lparr>abuffer_ctx := Some ab, filter_volume := volume p1\<rparr> in
                           (case init_volume av g (volume p2) ab of
                              Inl (err, g1, vc) \<Rightarrow>
                                Inr (put (p2\<lparr>filter_graph := Some g1, volume_ctx := vc\<rparr>), err)
                            | Inr (g1, vc, src1) \<Rightarrow>
                                let p3 = p2\<lparr>volume_ctx := vc\<rparr> in
                                (case init_asplit av g1 (sink_map_count p3) src1 of
                                   Inl (err, g2, sc) \<Rightarrow>
                                     Inr (put (p3\<lparr>filter_graph := Some g2, asplit_ctx := sc\<rparr>), err)
                                 | Inr (g2, sc, src2) \<Rightarrow>
                                     let p4 = p3\<lparr>asplit_ctx := sc\<rparr> in
                                     (case init_sink_chains av st g2 src2 0 (sink_map p4) of
                                        Inl e \<Rightarrow> Inl e
                                      | Inr (Some err, g3, m) \<Rightarrow>
                                          Inr (put (p4\<lparr>filter_graph := Some g3, sink_map := m\<rparr>), err)
                                      | Inr (None, g3, m) \<Rightarrow>
                                          let p5 = p4\<lparr>filter_graph := Some g3, sink_map := m\<rparr>;
                                              err = graph_config av g3
                                          in if sint err < 0 then Inr (put p5, err)
                                             else Inr (put (p5\<lparr>rebuild_filter_graph_flag := 0\<rparr>), 0))))))))"

text \<open>Lines 413-419, the condition.\<close>

definition needs_rebuild :: "GroovePlaylist \<Rightarrow> GrooveFile \<Rightarrow> bool" where
  "needs_rebuild p f \<longleftrightarrow>
     filter_graph p = None \<or> rebuild_filter_graph_flag p \<noteq> 0 \<or>
     in_sample_rate p \<noteq> st_sample_rate f \<or>
     in_channel_layout p \<noteq> st_channel_layout f \<or>
     in_sample_fmt p \<noteq> st_sample_fmt f \<or>
     fst (in_time_base p) \<noteq> fst (st_time_base f) \<or>
     snd (in_time_base p) \<noteq> snd (st_time_base f) \<or>
     double_ne (volume p) (filter_volume p)"

text \<open>Lines 406-425.\<close>

definition maybe_init_filter_graph :: "avfilter \<Rightarrow> state \<Rightarrow> ptr \<Rightarrow> ptr option \<Rightarrow> fault + state \<times> c_int" where
  "maybe_init_filter_graph av st playlist file =
     (case playlists st playlist of
        None \<Rightarrow> Inl Dangling
      | Some p \<Rightarrow>
          (case file of
             None \<Rightarrow> Inl Null_deref
           | Some fa \<Rightarrow>
               (case files st fa of
                  None \<Rightarrow> Inl Dangling
                | Some f \<Rightarrow>
                    if needs_rebuild p f then init_filter_graph av st playlist file
                    else Inr (st, 0))))"

subsection \<open>The decode thread\<close>

text \<open>Lines 444-451.\<close>

definition sink_is_full :: "state \<Rightarrow> ptr \<Rightarrow> fault + state \<times> c_int" where
  "sink_is_full st sink =
     (case sinks st sink of
        None \<Rightarrow> Inl Dangling
      | Some s \<Rightarrow> Inr (st, if sint (min_audioq_size s) \<le> sint (audioq_size s) then 1 else 0))"

definition every_sink_full :: "state \<Rightarrow> ptr \<Rightarrow> fault + state \<times> c_int" where
  "every_sink_full st playlist = every_sink st playlist sink_is_full 1"

text \<open>Lines 453-461.\<close>

definition sink_signal_end :: "state \<Rightarrow> ptr \<Rightarrow> fault + state \<times> c_int" where
  "sink_signal_end st sink =
     (case groove_queue_put st sink None of
        Inl e \<Rightarrow> Inl e
      | Inr (st', _) \<Rightarrow> Inr (st', 0))"

definition every_sink_signal_end :: "state \<Rightarrow> ptr \<Rightarrow> fault + state" where
  "every_sink_signal_end st playlist =
     (case every_sink st playlist sink_signal_end 0 of
        Inl e \<Rightarrow> Inl e
      | Inr (st', _) \<Rightarrow> Inr st')"

text \<open>
  Lines 477-547. After \<open>maybe_init_filter_graph\<close> the function reads, seeks and decodes
  through libavformat and libavcodec and hands the frames to \<open>audio_decode_frame\<close>; that
  part (lines 486-546) is the parameter \<open>frame_step\<close>.
\<close>

definition decode_one_frame ::
  "avfilter \<Rightarrow> (state \<Rightarrow> ptr \<Rightarrow> ptr option \<Rightarrow> fault + state \<times> c_int) \<Rightarrow> state \<Rightarrow> ptr \<Rightarrow> ptr option \<Rightarrow>
   fault + state \<times> c_int"
where
  "decode_one_frame av frame_step st playlist file =
     (case maybe_init_filter_graph av st playlist file of
        Inl e \<Rightarrow> Inl e
      | Inr (st', r) \<Rightarrow>
          if sint r < 0 then Inr (st', - 1)
          else frame_step st' playlist file)"

text \<open>Line 620: \<open>p->decode_head->file\<close>.\<close>

definition decode_head_file :: "state \<Rightarrow> ptr \<Rightarrow> fault + ptr option" where
  "decode_head_file st playlist =
     (case playlists st playlist of
        None \<Rightarrow> Inl Dangling
      | Some p \<Rightarrow>
          (case decode_head p of
             None \<Rightarrow> Inl Null_deref
           | Some d \<Rightarrow>
               (case items st d of
                  None \<Rightarrow> Inl Dangling
                | Some dh \<Rightarrow> Inr (item_file dh))))"

text \<open>Line 622: \<open>p->volume = p->decode_head->gain * playlist->volume\<close>.\<close>

definition set_effective_volume :: "state \<Rightarrow> ptr \<Rightarrow> fault + state" where
  "set_effective_volume st playlist =
     (case playlists st playlist of
        None \<Rightarrow> Inl Dangling
      | Some p \<Rightarrow>
          (case decode_head p of
             None \<Rightarrow> Inl Null_deref
           | Some d \<Rightarrow>
               (case items st d of
                  None \<Rightarrow> Inl Dangling
                | Some dh \<Rightarrow>
                    Inr (st\<lparr>playlists := (playlists st)(playlist \<mapsto>
                           p\<lparr>volume := double_mul (item_gain dh) (playlist_volume p)\<rparr>)\<rparr>))))"

text \<open>Lines 625-634.\<close>

definition advance_decode_head :: "state \<Rightarrow> ptr \<Rightarrow> fault + state" where
  "advance_decode_head st playlist =
     (case playlists st playlist of
        None \<Rightarrow> Inl Dangling
      | Some p \<Rightarrow>
          (case decode_head p of
             None \<Rightarrow> Inl Null_deref
           | Some d \<Rightarrow>
               (case items st d of
                  None \<Rightarrow> Inl Dangling
                | Some dh \<Rightarrow>
                    let st1 = st\<lparr>playlists := (playlists st)(playlist \<mapsto> p\<lparr>decode_head := item_next dh\<rparr>)\<rparr>
                    in (case item_next dh of
                          None \<Rightarrow> Inr st1
                        | Some n \<Rightarrow>
                            (case items st1 n of
                               None \<Rightarrow> Inl Dangling
                             | Some next_it \<Rightarrow> seek_to_start st1 (item_file next_it))))))"

text \<open>
  What one pass through the loop of \<open>decode_thread\<close> did: the loop ended on
  \<open>abort_request\<close>; there was no decode head and the sentinel was sent to every sink
  before waiting; there was none and the worker only waited; there was one and every sink
  was full; there was one and a frame was decoded.
\<close>

datatype worker_step = Stopped | Signalled_end | Idle | Sinks_full | Decoded

text \<open>
  Lines 598-638, one pass. The pass holds \<open>decode_head_mutex\<close> from its first statement
  to its last, or to the wait that ends it.
\<close>

definition decode_thread_step ::
  "avfilter \<Rightarrow> (state \<Rightarrow> ptr \<Rightarrow> ptr option \<Rightarrow> fault + state \<times> c_int) \<Rightarrow> state \<Rightarrow> ptr \<Rightarrow>
   fault + state \<times> worker_step"
where
  "decode_thread_step av frame_step st playlist =
     (case playlists st playlist of
        None \<Rightarrow> Inl Dangling
      | Some p \<Rightarrow>
          if abort_request p \<noteq> 0 then Inr (st, Stopped)
          else
            (case decode_head p of
               None \<Rightarrow>
                 if sent_end_of_q p = 0
                 then (case every_sink_signal_end st playlist of
                         Inl e \<Rightarrow> Inl e
                       | Inr st1 \<Rightarrow>
                           (case playlists st1 playlist of
                              None \<Rightarrow> Inl Dangling
                            | Some p1 \<Rightarrow>
                                Inr (st1\<lparr>playlists := (playlists st1)(playlist \<mapsto> p1\<lparr>sent_end_of_q := 1\<rparr>)\<rparr>,
                                     Signalled_end)))
                 else Inr (st, Idle)
             | Some _ \<Rightarrow>
                 (case every_sink_full
                         (st\<lparr>playlists := (playlists st)(playlist \<mapsto> p\<lparr>sent_end_of_q := 0\<rparr>)\<rparr>)
                         playlist of
                    Inl e \<Rightarrow> Inl e
                  | Inr (st1, full) \<Rightarrow>
                      if full \<noteq> 0 then Inr (st1, Sinks_full)
                      else
                        (case decode_head_file st1 playlist of
                           Inl e \<Rightarrow> Inl e
                         | Inr file \<Rightarrow>
                             (case set_effective_volume st1 playlist of
                                Inl e \<Rightarrow> Inl e
                              | Inr st2 \<Rightarrow>
                                  (case decode_one_frame av frame_step st2 playlist file of
                                     Inl e \<Rightarrow> Inl e
                                   | Inr (st3, r) \<Rightarrow>
                                       if sint r < 0
                                       then (case advance_decode_head st3 playlist of
                                               Inl e \<Rightarrow> Inl e
                                             | Inr st4 \<Rightarrow> Inr (st4, Decoded))
                                       else Inr (st3, Decoded)))))))"

text \<open>
  The passes of the loop, in order: each with the state it began in, its outcome and the
  state it left. Between two passes, and while the worker waits, the other threads run:
  each element of \<open>others\<close> is what they do to the state before the next pass. The run
  ends with the loop, on a fault, or when \<open>others\<close> is used up.
\<close>

fun decode_thread ::
  "avfilter \<Rightarrow> (state \<Rightarrow> ptr \<Rightarrow> ptr option \<Rightarrow> fault + state \<times> c_int) \<Rightarrow> ptr \<Rightarrow>
   (state \<Rightarrow> state) list \<Rightarrow> state \<Rightarrow> (state \<times> worker_step \<times> state) list"
where
  "decode_thread av frame_step playlist [] st = []"
| "decode_thread av frame_step playlist (other # others) st =
     (case decode_thread_step av frame_step (other st) playlist of
        Inl e \<Rightarrow> []
      | Inr (st', Stopped) \<Rightarrow> [(other st, Stopped, st')]
      | Inr (st', ev) \<Rightarrow> (other st, ev, st') # decode_thread av frame_step playlist others st')"

subsection \<open>Creating a playlist\<close>

text \<open>
  Lines 814-867. \<open>new_playlist\<close> is what \<open>av_mallocz\<close> returns, and \<open>inits_ok\<close> says that
  the mutex, the two condition variables, the frame and the thread were all created;
  otherwise the playlist is destroyed again and the result is null. The new playlist is
  zeroed but for the two volumes and \<open>sent_end_of_q\<close>.
\<close>

definition groove_playlist_create :: "state \<Rightarrow> ptr option \<Rightarrow> bool \<Rightarrow> state \<times> ptr option" where
  "groove_playlist_create st new_playlist inits_ok =
     (case new_playlist of
        None \<Rightarrow> (st, None)
      | Some a \<Rightarrow>
          if inits_ok
          then (st\<lparr>playlists := (playlists st)(a \<mapsto>
                  \<lparr>head = None, tail = None, playlist_volume = dbl 1 0, abort_request = 0, paused = 0,
                   last_paused = 0, in_sample_rate = 0, in_channel_layout = 0, in_sample_fmt = 0,
                   in_time_base = (0, 0), filter_graph = None, abuffer_ctx = None,
                   volume_ctx = None, asplit_ctx = None, decode_head = None, volume = dbl 1 0,
                   rebuild_filter_graph_flag = 0, sink_map = [], sink_map_count = 0,
                   filter_volume = dbl 0 0, sent_end_of_q = 1, purge_item = None\<rparr>)\<rparr>,
                Some a)
          else (st, None))"

section \<open>What the theorems speak of\<close>

subsection \<open>The item list as a doubly linked list\<close>

text \<open>
  The items \<open>xs\<close>, in order, are linked into a list that starts after \<open>pr\<close>: each is live,
  its \<open>prev\<close> is its predecessor (\<open>pr\<close> for the first) and its \<open>next\<close> is its successor
  (null for the last).
\<close>

fun chain :: "(ptr \<rightharpoonup> GroovePlaylistItem) \<Rightarrow> ptr option \<Rightarrow> ptr list \<Rightarrow> bool" where
  "chain h pr [] = True"
| "chain h pr (x # xs) =
     (case h x of
        None \<Rightarrow> False
      | Some it \<Rightarrow>
          item_prev it = pr \<and> item_next it = (case xs of [] \<Rightarrow> None | y # _ \<Rightarrow> Some y) \<and>
          chain h (Some x) xs)"

text \<open>
  The playlist's items are exactly \<open>xs\<close>, well formed: \<open>head\<close> and \<open>tail\<close> are the first and
  the last of them (null when there is none), no item occurs twice, and they are linked
  in both directions.
\<close>

definition dll :: "state \<Rightarrow> ptr \<Rightarrow> ptr list \<Rightarrow> bool" where
  "dll st playlist xs =
     (case playlists st playlist of
        None \<Rightarrow> False
      | Some p \<Rightarrow>
          head p = (case xs of [] \<Rightarrow> None | x # _ \<Rightarrow> Some x) \<and>
          tail p = (if xs = [] then None else Some (last xs)) \<and>
          distinct xs \<and> chain (items st) None xs)"

subsection \<open>The queues of the attached sinks\<close>

text \<open>The sinks attached to a playlist: those of all the stacks of its sink map.\<close>

definition attached_sinks :: "GroovePlaylist \<Rightarrow> ptr list" where
  "attached_sinks p = concat (map stack_head (sink_map p))"

text \<open>
  What purging the queues for item \<open>i\<close> leaves alone: the playlists, each sink's playlist
  pointer, every buffer of another item; a queue only loses elements.
\<close>

definition sink_rel :: "GrooveSink \<Rightarrow> GrooveSink \<Rightarrow> bool" where
  "sink_rel s s' \<longleftrightarrow>
     sink_playlist s' = sink_playlist s \<and>
     rel_option (\<lambda>q q'. set (q_elems q') \<subseteq> set (q_elems q)) (audioq s) (audioq s')"

definition purge_frame :: "ptr \<Rightarrow> state \<Rightarrow> state \<Rightarrow> bool" where
  "purge_frame i st st' \<longleftrightarrow>
     playlists st' = playlists st \<and>
     (\<forall>k. rel_option sink_rel (sinks st k) (sinks st' k)) \<and>
     (\<forall>a buf. buffers st a = Some buf \<longrightarrow> buf_item buf \<noteq> Some i \<longrightarrow> buffers st' a = Some buf)"

text \<open>No buffer of item \<open>i\<close> is in the queue of sink \<open>k\<close>.\<close>

definition purged :: "ptr \<Rightarrow> state \<Rightarrow> ptr \<Rightarrow> bool" where
  "purged i st k \<longleftrightarrow>
     (\<exists>s q. sinks st k = Some s \<and> audioq s = Some q \<and>
        (\<forall>a. Some a \<in> set (q_elems q) \<longrightarrow> (\<exists>buf. buffers st a = Some buf \<and> buf_item buf \<noteq> Some i)))"

text \<open>Sink \<open>k\<close> points back to playlist \<open>p\<close>, whose \<open>purge_item\<close> is \<open>i\<close>.\<close>

definition purging :: "ptr \<Rightarrow> ptr \<Rightarrow> state \<Rightarrow> ptr \<Rightarrow> bool" where
  "purging p i st k \<longleftrightarrow>
     (\<exists>s. sinks st k = Some s \<and> sink_playlist s = Some p) \<and>
     (\<exists>pl. playlists st p = Some pl \<and> purge_item pl = Some i)"

text \<open>The states that differ at most in the sinks, the buffers and the record of hook calls.\<close>

definition list_frame :: "state \<Rightarrow> state \<Rightarrow> bool" where
  "list_frame st st' \<longleftrightarrow>
     items st' = items st \<and> playlists st' = playlists st \<and> files st' = files st \<and>
     free_log st' = free_log st"

text \<open>The elements in the queue of a sink (none when the sink or its queue is missing).\<close>

definition queue_of :: "state \<Rightarrow> ptr \<Rightarrow> ptr option list" where
  "queue_of st k =
     (case sinks st k of
        None \<Rightarrow> []
      | Some s \<Rightarrow> (case audioq s of None \<Rightarrow> [] | Some q \<Rightarrow> q_elems q))"

text \<open>How often buffer \<open>b\<close> occurs in the queues of the sinks \<open>K\<close>.\<close>

definition queue_refs :: "state \<Rightarrow> ptr set \<Rightarrow> ptr \<Rightarrow> int" where
  "queue_refs st K b = (\<Sum>k \<in> K. int (count_list (queue_of st k) (Some b)))"

text \<open>
  The sinks \<open>K\<close> are attached to the playlist and their queues are sound: each sink is
  live, points back to the playlist and has a queue; every buffer in a queue is live; and
  the reference count of a live buffer is at least the number of its occurrences in the
  queues (the spec's invariant of the buffer: "\<open>refcount \<ge> 1\<close> while reachable from any
  queue", one reference for each holder).
\<close>

definition sinks_ok :: "state \<Rightarrow> ptr \<Rightarrow> ptr set \<Rightarrow> bool" where
  "sinks_ok st playlist K \<longleftrightarrow>
     (\<forall>k \<in> K. \<exists>s q. sinks st k = Some s \<and> sink_playlist s = Some playlist \<and> audioq s = Some q \<and>
        (\<forall>b. Some b \<in> set (q_elems q) \<longrightarrow> buffers st b \<noteq> None)) \<and>
     (\<forall>b buf. buffers st b = Some buf \<longrightarrow> queue_refs st K b \<le> ref_count buf)"

definition queues_ok :: "state \<Rightarrow> ptr \<Rightarrow> bool" where
  "queues_ok st playlist =
     (case playlists st playlist of
        None \<Rightarrow> False
      | Some p \<Rightarrow> sinks_ok st playlist (set (attached_sinks p)))"

text \<open>The element is a buffer of item \<open>i\<close>; the sentinel is not.\<close>

definition holds_item :: "state \<Rightarrow> ptr \<Rightarrow> ptr option \<Rightarrow> bool" where
  "holds_item st i obj =
     (case obj of
        None \<Rightarrow> False
      | Some a \<Rightarrow> (case buffers st a of None \<Rightarrow> False | Some buf \<Rightarrow> buf_item buf = Some i))"


text \<open>
  The sinks and the playlists agree: no sink is attached twice to a playlist, and every
  sink attached to a playlist is live and points back to it.
\<close>

definition attached_ok :: "state \<Rightarrow> bool" where
  "attached_ok st \<longleftrightarrow>
     (\<forall>pl p. playlists st pl = Some p \<longrightarrow>
        distinct (attached_sinks p) \<and>
        (\<forall>k \<in> set (attached_sinks p). \<exists>s. sinks st k = Some s \<and> sink_playlist s = Some pl))"

subsection \<open>The grouping of the sinks\<close>

text \<open>
  The claimed grouping predicate, in the spec's words: equal \<open>buffer_sample_count\<close>, and
  either both sinks set \<open>disable_resample\<close> or neither does and their sample rate,
  channel layout and sample format are equal.
\<close>

definition same_format :: "GrooveSink \<Rightarrow> GrooveSink \<Rightarrow> bool" where
  "same_format a b \<longleftrightarrow>
     buffer_sample_count a = buffer_sample_count b \<and>
     (disable_resample a \<noteq> 0 \<and> disable_resample b \<noteq> 0 \<or>
      disable_resample a = 0 \<and> disable_resample b = 0 \<and>
      (sample_rate (audio_format a), channel_layout (audio_format a), sample_fmt (audio_format a)) =
      (sample_rate (audio_format b), channel_layout (audio_format b), sample_fmt (audio_format b)))"

text \<open>What decides the group of a sink.\<close>

definition format_key :: "GrooveSink \<Rightarrow> c_int \<times> (c_int \<times> 64 word \<times> c_int) option" where
  "format_key s =
     (buffer_sample_count s,
      if disable_resample s \<noteq> 0 then None
      else Some (sample_rate (audio_format s), channel_layout (audio_format s),
                 sample_fmt (audio_format s)))"

text \<open>
  The map items \<open>m\<close> have the keys \<open>ks\<close>, in order: no stack is empty, and every sink on
  the stack of an item is live and has the item's key.
\<close>

definition grouped :: "state \<Rightarrow> SinkMap list \<Rightarrow> (c_int \<times> (c_int \<times> 64 word \<times> c_int) option) list \<Rightarrow> bool" where
  "grouped st m ks \<longleftrightarrow>
     list_all2 (\<lambda>g k. stack_head g \<noteq> [] \<and>
                  (\<forall>a \<in> set (stack_head g). \<exists>s. sinks st a = Some s \<and> format_key s = k)) m ks"

text \<open>
  A sequence of calls of \<open>add_sink_to_map\<close> on one playlist, each with its sink and the
  results of its two allocations.
\<close>

fun add_sinks :: "state \<Rightarrow> ptr \<Rightarrow> (ptr \<times> ptr option \<times> ptr option) list \<Rightarrow> fault + state" where
  "add_sinks st playlist [] = Inr st"
| "add_sinks st playlist ((sink, stack_entry, map_entry) # calls) =
     (case add_sink_to_map st playlist sink stack_entry map_entry of
        Inl e \<Rightarrow> Inl e
      | Inr (st', _) \<Rightarrow> add_sinks st' playlist calls)"

subsection \<open>The volume filters of a graph\<close>

text \<open>The arguments of the volume filters among the nodes of a graph.\<close>

fun volume_params :: "filter list \<Rightarrow> string list" where
  "volume_params [] = []"
| "volume_params (Volume v # fs) = v # volume_params fs"
| "volume_params (_ # fs) = volume_params fs"

text \<open>
  What a step leaves for the volume: \<open>p->volume\<close>, \<open>volume_ctx\<close> and the arguments of the
  volume filters in the graph.
\<close>

definition rebuilt_volume :: "fault + state \<times> 'a \<Rightarrow> ptr \<Rightarrow> (double \<times> nat option \<times> string list) option" where
  "rebuilt_volume res playlist =
     (case res of
        Inl e \<Rightarrow> None
      | Inr (st', r) \<Rightarrow>
          (case playlists st' playlist of
             None \<Rightarrow> None
           | Some p \<Rightarrow>
               (case filter_graph p of
                  None \<Rightarrow> None
                | Some g \<Rightarrow> Some (volume p, volume_ctx p, volume_params (nodes g)))))"

subsection \<open>The passes of the worker\<close>

text \<open>
  A list of passes in which a sentinel is only sent when it is due: \<open>due\<close> says that a pass
  with a decode head has come since the last sentinel.
\<close>

fun sentinel_due :: "bool \<Rightarrow> worker_step list \<Rightarrow> bool" where
  "sentinel_due due [] = True"
| "sentinel_due due (Signalled_end # evs) = (due \<and> sentinel_due False evs)"
| "sentinel_due due (Sinks_full # evs) = sentinel_due True evs"
| "sentinel_due due (Decoded # evs) = sentinel_due True evs"
| "sentinel_due due (_ # evs) = sentinel_due due evs"

text \<open>The number of sentinels in the queue of a sink.\<close>

definition sentinels :: "state \<Rightarrow> ptr \<Rightarrow> nat" where
  "sentinels st k = count_list (queue_of st k) None"

text \<open>The sink is live and has a queue that is not aborted: \<open>groove_queue_put\<close> enqueues.\<close>

definition queue_open :: "state \<Rightarrow> ptr \<Rightarrow> bool" where
  "queue_open st k =
     (case sinks st k of
        None \<Rightarrow> False
      | Some s \<Rightarrow> (case audioq s of None \<Rightarrow> False | Some q \<Rightarrow> \<not> q_abort q))"

text \<open>
  How many sentinels \<open>every_sink_signal_end\<close> puts into the queue of sink \<open>k\<close>: one for
  each time the sink is in the playlist's map.
\<close>

definition signalled :: "state \<Rightarrow> GroovePlaylist \<Rightarrow> ptr \<Rightarrow> nat" where
  "signalled st p k = (if queue_open st k then count_list (attached_sinks p) k else 0)"

text \<open>The pass found a decode head (and no abort request).\<close>

definition found_head :: "ptr \<Rightarrow> state \<times> worker_step \<times> state \<Rightarrow> bool" where
  "found_head playlist pass =
     (case playlists (fst pass) playlist of
        None \<Rightarrow> False
      | Some p \<Rightarrow> abort_request p = 0 \<and> decode_head p \<noteq> None)"

text \<open>The pass left more sentinels in the queue of sink \<open>k\<close> than it found there.\<close>

definition gained_sentinel :: "state \<times> worker_step \<times> state \<Rightarrow> ptr \<Rightarrow> bool" where
  "gained_sentinel pass k \<longleftrightarrow> sentinels (fst pass) k < sentinels (snd (snd pass)) k"

subsection \<open>Calls in a row\<close>

text \<open>Running one call after another, and what a call returned.\<close>

definition and_then :: "fault + state \<times> 'a \<Rightarrow> (state \<Rightarrow> fault + state \<times> 'b) \<Rightarrow> fault + state \<times> 'b" where
  "and_then res f = (case res of Inl e \<Rightarrow> Inl e | Inr (st, _) \<Rightarrow> f st)"

definition no_value :: "fault + state \<Rightarrow> fault + state \<times> unit" where
  "no_value res = (case res of Inl e \<Rightarrow> Inl e | Inr st \<Rightarrow> Inr (st, ()))"

definition returned :: "fault + state \<times> 'a \<Rightarrow> 'a option" where
  "returned res = (case res of Inl e \<Rightarrow> None | Inr (_, v) \<Rightarrow> Some v)"

text \<open>The sinks attached to a playlist after a call.\<close>

definition attached_after :: "fault + state \<times> 'a \<Rightarrow> ptr \<Rightarrow> ptr list option" where
  "attached_after res playlist =
     (case res of
        Inl e \<Rightarrow> None
      | Inr (st, _) \<Rightarrow> map_option attached_sinks (playlists st playlist))"

text \<open>The buffers of item \<open>i\<close> that the queue of sink \<open>k\<close> holds after a call.\<close>

definition left_in_queue :: "fault + state \<times> 'a \<Rightarrow> ptr \<Rightarrow> ptr \<Rightarrow> ptr option list option" where
  "left_in_queue res k i =
     (case res of
        Inl e \<Rightarrow> None
      | Inr (st, _) \<Rightarrow> Some (filter (holds_item st i) (queue_of st k)))"

text \<open>
  What a call of the API by another thread does to the state (a call that faults leaves it
  as it is).
\<close>

definition api :: "(state \<Rightarrow> fault + state \<times> 'a) \<Rightarrow> state \<Rightarrow> state" where
  "api call st = (case call st of Inl e \<Rightarrow> st | Inr (st', _) \<Rightarrow> st')"

subsection \<open>Example states\<close>

definition ex_item :: "ptr option \<Rightarrow> ptr option \<Rightarrow> GroovePlaylistItem" where
  "ex_item pr nx = \<lparr>item_file = Some 0, item_gain = dbl 1 0, item_prev = pr, item_next = nx\<rparr>"

definition ex_file :: GrooveFile where
  "ex_file = \<lparr>audio_clock = dbl 0 0, seek_pos = - 1, seek_flush = 0, eof = 0, file_abort_request = 0,
     st_sample_rate = 44100, st_channel_layout = 3, st_sample_fmt = 1, st_time_base = (1, 44100)\<rparr>"

definition ex_buffer :: "ptr \<Rightarrow> int \<Rightarrow> GrooveBuffer" where
  "ex_buffer i n = \<lparr>buf_item = Some i, buf_pos = dbl 0 0, buf_size = 4096, ref_count = n\<rparr>"

definition ex_sink :: "ptr option list \<Rightarrow> GrooveSink" where
  "ex_sink elems =
     \<lparr>audio_format = \<lparr>sample_rate = 44100, channel_layout = 3, sample_fmt = 1\<rparr>,
      disable_resample = 0, buffer_sample_count = 0, buffer_size = 8192, bytes_per_sec = 176400,
      sink_playlist = Some 0, has_flush = False, has_purge = True,
      audioq = Some \<lparr>q_elems = elems, q_abort = False\<rparr>,
      audioq_size = 8192, min_audioq_size = 32768\<rparr>"

definition ex_sink_48k :: GrooveSink where
  "ex_sink_48k =
     (ex_sink [])\<lparr>audio_format := \<lparr>sample_rate = 48000, channel_layout = 3, sample_fmt = 3\<rparr>,
       sink_playlist := None\<rparr>"

definition ex_group :: "ptr list \<Rightarrow> SinkMap" where
  "ex_group stack = \<lparr>stack_head = stack, aformat_ctx = None, abuffersink_ctx = None\<rparr>"

definition ex_playlist :: "ptr option \<Rightarrow> ptr option \<Rightarrow> ptr option \<Rightarrow> SinkMap list \<Rightarrow> GroovePlaylist" where
  "ex_playlist h t d m =
     \<lparr>head = h, tail = t, playlist_volume = dbl 1 0, abort_request = 0, paused = 0, last_paused = 0,
      in_sample_rate = 0, in_channel_layout = 0, in_sample_fmt = 0, in_time_base = (0, 0),
      filter_graph = None, abuffer_ctx = None, volume_ctx = None, asplit_ctx = None,
      decode_head = d, volume = dbl 1 0, rebuild_filter_graph_flag = 0, sink_map = m,
      sink_map_count = word_of_nat (length m), filter_volume = dbl 1 0, sent_end_of_q = 0,
      purge_item = None\<rparr>"

text \<open>A framework in which every call succeeds.\<close>

definition ex_avfilter :: avfilter where
  "ex_avfilter =
     \<lparr>graph_alloc = True, create_filter = (\<lambda>_. 0), link_filters = (\<lambda>_ _ _ _. 0),
      graph_config = (\<lambda>_. 0)\<rparr>"

text \<open>Item 1 alone in playlist 0, no sink.\<close>

definition ex_single_state :: state where
  "ex_single_state =
     \<lparr>items = [1 \<mapsto> ex_item None None],
      files = [0 \<mapsto> ex_file],
      buffers = Map.empty,
      sinks = Map.empty,
      playlists = [0 \<mapsto> ex_playlist (Some 1) (Some 1) (Some 1) []],
      purge_calls = [], free_log = []\<rparr>"

text \<open>Items 1 and 2, decoding item 1; one sink holding a buffer of each item around a sentinel.\<close>

definition ex_remove_state :: state where
  "ex_remove_state =
     \<lparr>items = [1 \<mapsto> ex_item None (Some 2), 2 \<mapsto> ex_item (Some 1) None],
      files = [0 \<mapsto> ex_file],
      buffers = [10 \<mapsto> ex_buffer 1 1, 11 \<mapsto> ex_buffer 2 1],
      sinks = [5 \<mapsto> ex_sink [Some 10, None, Some 11]],
      playlists = [0 \<mapsto> ex_playlist (Some 1) (Some 2) (Some 1) [ex_group [5]]],
      purge_calls = [], free_log = []\<rparr>"

text \<open>Playlist 0 with an empty sink map, and three live sinks.\<close>

definition ex_sinks_state :: state where
  "ex_sinks_state = ex_single_state\<lparr>sinks := [5 \<mapsto> ex_sink [], 6 \<mapsto> ex_sink [], 7 \<mapsto> ex_sink_48k]\<rparr>"

text \<open>
  Playlist 0 decoding item 1 with sink 5 attached, its filter graph built for the file
  and volume 1, the rebuild flag clear; sink 7 is detached.
\<close>

definition ex_graph_state :: state where
  "ex_graph_state =
     ex_single_state\<lparr>
       sinks := [5 \<mapsto> ex_sink [], 7 \<mapsto> ex_sink_48k],
       playlists := [0 \<mapsto> (ex_playlist (Some 1) (Some 1) (Some 1) [ex_group [5]])\<lparr>
          in_sample_rate := 44100, in_channel_layout := 3, in_sample_fmt := 1,
          in_time_base := (1, 44100),
          filter_graph := Some \<lparr>nodes = [Abuffer (1, 44100) 44100 1 3, Aformat 1 44100 3, Abuffersink],
                                links = [(0, 0, 1, 0), (1, 0, 2, 0)]\<rparr>,
          abuffer_ctx := Some 0,
          sink_map := [\<lparr>stack_head = [5], aformat_ctx = Some 1, abuffersink_ctx = Some 2\<rparr>]\<rparr>]\<rparr>"

text \<open>
  Playlist 0 at volume \<open>vol\<close> with sink 5 attached, decoding item 1, whose gain is \<open>gain\<close>,
  before its graph is built.
\<close>

definition ex_volume_state :: "double \<Rightarrow> double \<Rightarrow> state" where
  "ex_volume_state gain vol =
     ex_single_state\<lparr>
       items := [1 \<mapsto> (ex_item None None)\<lparr>item_gain := gain\<rparr>],
       sinks := [5 \<mapsto> ex_sink []],
       playlists := [0 \<mapsto> (ex_playlist (Some 1) (Some 1) (Some 1) [ex_group [5]])\<lparr>playlist_volume := vol\<rparr>]\<rparr>"

text \<open>A packet that gives no frame: the decoding of lines 486-546 changes nothing and returns 0.\<close>

definition ex_frame_step :: "state \<Rightarrow> ptr \<Rightarrow> ptr option \<Rightarrow> fault + state \<times> c_int" where
  "ex_frame_step st playlist file = Inr (st, 0)"

text \<open>
  Playlist 0 with items 1 and 2, decoding item 1, and the empty playlist 1; sink 5 is
  detached and its queue is empty; buffer 10 is a buffer of item 1.
\<close>

definition ex_two_playlists :: state where
  "ex_two_playlists =
     \<lparr>items = [1 \<mapsto> ex_item None (Some 2), 2 \<mapsto> ex_item (Some 1) None],
      files = [0 \<mapsto> ex_file],
      buffers = [10 \<mapsto> ex_buffer 1 1],
      sinks = [5 \<mapsto> (ex_sink [])\<lparr>sink_playlist := None\<rparr>],
      playlists = [0 \<mapsto> ex_playlist (Some 1) (Some 2) (Some 1) [],
                   1 \<mapsto> ex_playlist None None None []],
      purge_calls = [], free_log = []\<rparr>"

text \<open>
  Sink 5 is attached to playlist 0; the worker puts buffer 10 into its queue; sink 5 is
  attached to playlist 1 without being detached; item 1 is removed from playlist 0.
\<close>

definition ex_attach_first :: "fault + state \<times> c_int" where
  "ex_attach_first = groove_sink_attach (\<lambda>_. 2) (\<lambda>_. 2) ex_two_playlists 5 0 (Some 100) (Some 101)"

definition ex_put_buffer :: "fault + state \<times> c_int" where
  "ex_put_buffer = and_then ex_attach_first (\<lambda>st. groove_queue_put st 5 (Some 10))"

definition ex_attach_second :: "fault + state \<times> c_int" where
  "ex_attach_second =
     and_then ex_put_buffer (\<lambda>st. groove_sink_attach (\<lambda>_. 2) (\<lambda>_. 2) st 5 1 (Some 102) (Some 103))"

definition ex_remove_after :: "fault + state \<times> unit" where
  "ex_remove_after = and_then ex_attach_second (\<lambda>st. no_value (groove_playlist_remove st 0 1))"

text \<open>
  No playlist yet; file 0; sink 5 is detached and its queue is empty.
\<close>

definition ex_fresh_state :: state where
  "ex_fresh_state =
     \<lparr>items = Map.empty, files = [0 \<mapsto> ex_file], buffers = Map.empty,
      sinks = [5 \<mapsto> (ex_sink [])\<lparr>sink_playlist := None, audioq_size := 0\<rparr>],
      playlists = Map.empty, purge_calls = [], free_log = []\<rparr>"

text \<open>The file is at its end: the decoding of lines 486-546 changes nothing and returns -1.\<close>

definition ex_end_of_file :: "state \<Rightarrow> ptr \<Rightarrow> ptr option \<Rightarrow> fault + state \<times> c_int" where
  "ex_end_of_file st playlist file = Inr (st, - 1)"

text \<open>
  The other threads attach sink 5 to playlist 0, then insert an item for file 0 (it
  becomes the decode head), then do nothing twice.
\<close>

definition ex_others :: "(state \<Rightarrow> state) list" where
  "ex_others =
     [api (\<lambda>st. groove_sink_attach (\<lambda>_. 2) (\<lambda>_. 2) st 5 0 (Some 100) (Some 101)),
      api (\<lambda>st. groove_playlist_insert st 0 (Some 0) (dbl 1 0) None (Some 1)),
      id, id]"

definition ex_worker_run :: "(state \<times> worker_step \<times> state) list" where
  "ex_worker_run =
     decode_thread ex_avfilter ex_end_of_file 0 ex_others
       (fst (groove_playlist_create ex_fresh_state (Some 0) True))"

section \<open>Theorems\<close>

subsection \<open>The sentinel and the queue callbacks\<close>

text \<open>
  C6. The end-of-queue sentinel passes through the four queue callbacks without effect:
  \<open>audioq_put\<close>, \<open>audioq_get\<close> and \<open>audioq_cleanup\<close> return the state they were given
  (so \<open>audioq_size\<close> is unchanged and no buffer is unreferenced), and \<open>audioq_purge\<close>
  answers 0 (false), for every state and every sink.
\<close>

theorem sentinel_bypasses_callbacks:
  "audioq_put st ctx None = Inr st \<and>
   audioq_get st ctx None = Inr st \<and>
   audioq_cleanup st ctx None = Inr st \<and>
   audioq_purge st ctx None = Inr 0"
  by (simp add: audioq_put_def audioq_get_def audioq_cleanup_def audioq_purge_def)

subsection \<open>Removing an item purges every queue\<close>

lemma sink_rel_refl: "sink_rel s s"
  by (simp add: sink_rel_def option.rel_refl)

lemma sink_rel_trans: "sink_rel a b \<Longrightarrow> sink_rel b c \<Longrightarrow> sink_rel a c"
  unfolding sink_rel_def
  by (cases "audioq a"; cases "audioq b"; cases "audioq c") auto

lemma purge_frame_refl: "purge_frame i st st"
  by (simp add: purge_frame_def option.rel_refl sink_rel_refl)

lemma purge_frame_trans:
  assumes "purge_frame i a b" "purge_frame i b c"
  shows "purge_frame i a c"
proof -
  have "rel_option sink_rel (sinks a k) (sinks c k)" for k
  proof -
    from assms have 1: "rel_option sink_rel (sinks a k) (sinks b k)"
      and 2: "rel_option sink_rel (sinks b k) (sinks c k)"
      by (simp_all add: purge_frame_def)
    show ?thesis
      using 1 2
      by (cases "sinks a k"; cases "sinks b k"; cases "sinks c k") (auto intro: sink_rel_trans)
  qed
  with assms show ?thesis
    by (simp add: purge_frame_def)
qed

lemma purging_frame: "purging p i st k \<Longrightarrow> purge_frame i st st' \<Longrightarrow> purging p i st' k"
  unfolding purging_def purge_frame_def
  apply clarsimp
  subgoal for s pl
    apply (drule spec [of _ k])
    apply (cases "sinks st' k")
     apply (auto simp: sink_rel_def)
    done
  done

lemma purged_frame: "purged i st k \<Longrightarrow> purge_frame i st st' \<Longrightarrow> purged i st' k"
  unfolding purged_def purge_frame_def
  apply clarsimp
  subgoal for s q
    apply (drule spec [of _ k])
    apply (cases "sinks st' k")
     apply simp
    subgoal for s'
      apply (cases "audioq s'")
       apply (auto simp: sink_rel_def)
      done
    done
  done

lemma audioq_cleanup_frame:
  assumes "audioq_cleanup st ctx (Some b) = Inr st'"
    and "buffers st b = Some buf" and "buf_item buf = Some i"
  shows "purge_frame i st st'"
  using assms
  by (auto simp: audioq_cleanup_def groove_buffer_unref_def purge_frame_def sink_rel_def
      option.rel_refl split: option.splits if_splits intro!: option.rel_refl_strong)

lemma purge_elems_post:
  assumes "purging p i st ctx" and "purge_elems st ctx xs = Inr (st', kept)"
  shows "purge_frame i st st' \<and> set kept \<subseteq> set xs \<and>
         (\<forall>a. Some a \<in> set kept \<longrightarrow> (\<exists>buf. buffers st' a = Some buf \<and> buf_item buf \<noteq> Some i))"
  using assms
proof (induction xs arbitrary: st kept)
  case Nil
  then show ?case by (simp add: purge_frame_refl)
next
  case (Cons obj rest)
  show ?case
  proof (cases obj)
    case None
    with Cons.prems obtain kept' where k: "purge_elems st ctx rest = Inr (st', kept')" "kept = None # kept'"
      by (auto simp: audioq_purge_def split: sum.splits)
    from Cons.IH [OF Cons.prems(1) k(1)] k(2) None show ?thesis by auto
  next
    case (Some b)
    from Cons.prems(1) obtain s pl where s: "sinks st ctx = Some s" "sink_playlist s = Some p"
      "playlists st p = Some pl" "purge_item pl = Some i"
      by (auto simp: purging_def)
    from Cons.prems(2) Some s obtain buf where buf: "buffers st b = Some buf"
      by (auto simp: audioq_purge_def split: sum.splits option.splits)
    show ?thesis
    proof (cases "buf_item buf = Some i")
      case True
      with Cons.prems(2) Some s buf obtain st1 where
        c: "audioq_cleanup st ctx (Some b) = Inr st1" and r: "purge_elems st1 ctx rest = Inr (st', kept)"
        by (auto simp: audioq_purge_def split: sum.splits)
      have f1: "purge_frame i st st1" by (rule audioq_cleanup_frame [OF c buf True])
      have "purging p i st1 ctx" by (rule purging_frame [OF Cons.prems(1) f1])
      from Cons.IH [OF this r] f1 show ?thesis
        by (auto intro: purge_frame_trans)
    next
      case False
      with Cons.prems(2) Some s buf obtain kept' where
        k: "purge_elems st ctx rest = Inr (st', kept')" "kept = Some b # kept'"
        by (auto simp: audioq_purge_def split: sum.splits)
      from Cons.IH [OF Cons.prems(1) k(1)] have ih: "purge_frame i st st'" "set kept' \<subseteq> set rest"
        "\<forall>a. Some a \<in> set kept' \<longrightarrow> (\<exists>buf. buffers st' a = Some buf \<and> buf_item buf \<noteq> Some i)"
        by auto
      from ih(1) buf False have "buffers st' b = Some buf" by (simp add: purge_frame_def)
      with ih k(2) Some False show ?thesis by auto
    qed
  qed
qed

lemma audioq_cleanup_keeps_queue:
  "audioq_cleanup st ctx obj = Inr st' \<Longrightarrow> sinks st ctx = Some s \<Longrightarrow>
   \<exists>s'. sinks st' ctx = Some s' \<and> audioq s' = audioq s"
  by (auto simp: audioq_cleanup_def groove_buffer_unref_def split: option.splits if_splits)

lemma purge_elems_keeps_queue:
  "purge_elems st ctx xs = Inr (st', kept) \<Longrightarrow> sinks st ctx = Some s \<Longrightarrow> audioq s = Some q \<Longrightarrow>
   \<exists>s'. sinks st' ctx = Some s' \<and> audioq s' = Some q"
proof (induction xs arbitrary: st s kept)
  case Nil
  then show ?case by simp
next
  case (Cons obj rest)
  show ?case
  proof (cases "audioq_purge st ctx obj")
    case (Inl e)
    with Cons.prems show ?thesis by simp
  next
    case (Inr r)
    show ?thesis
    proof (cases "r = 0")
      case True
      with Cons.prems Inr obtain kept' where "purge_elems st ctx rest = Inr (st', kept')"
        by (auto split: sum.splits)
      from Cons.IH [OF this Cons.prems(2,3)] show ?thesis .
    next
      case False
      with Cons.prems Inr obtain st1 where c: "audioq_cleanup st ctx obj = Inr st1"
        and r: "purge_elems st1 ctx rest = Inr (st', kept)"
        by (auto split: sum.splits)
      from audioq_cleanup_keeps_queue [OF c Cons.prems(2)] obtain s1 where
        "sinks st1 ctx = Some s1" "audioq s1 = audioq s" by auto
      with Cons.IH [OF r, of s1] Cons.prems(3) show ?thesis by simp
    qed
  qed
qed

lemma set_q_elems_frame:
  assumes "set_q_elems st ctx kept = Inr st'" and "sinks st ctx = Some s" and "audioq s = Some q"
    and "set kept \<subseteq> set (q_elems q)"
  shows "purge_frame i st st'"
  using assms
  by (auto simp: set_q_elems_def purge_frame_def sink_rel_def option.rel_refl sink_rel_refl
      split: option.splits)

lemma purge_frame_queue_subset:
  assumes "purge_frame i st st1" "sinks st ctx = Some s" "audioq s = Some q"
    "sinks st1 ctx = Some s1" "audioq s1 = Some q1"
  shows "set (q_elems q1) \<subseteq> set (q_elems q)"
proof -
  from assms(1) have "rel_option sink_rel (sinks st ctx) (sinks st1 ctx)"
    by (simp add: purge_frame_def)
  with assms(2-) show ?thesis by (simp add: sink_rel_def)
qed

lemma groove_queue_purge_post:
  assumes "purging p i st ctx" and "groove_queue_purge st ctx = Inr st'"
  shows "purge_frame i st st' \<and> purged i st' ctx"
proof -
  from assms obtain s q st1 kept where s: "sinks st ctx = Some s" "audioq s = Some q"
    and pe: "purge_elems st ctx (q_elems q) = Inr (st1, kept)"
    and sq: "set_q_elems st1 ctx kept = Inr st'"
    by (auto simp: groove_queue_purge_def split: option.splits sum.splits)
  from purge_elems_post [OF assms(1) pe] have f1: "purge_frame i st st1"
    and sub: "set kept \<subseteq> set (q_elems q)"
    and kept: "\<forall>a. Some a \<in> set kept \<longrightarrow> (\<exists>buf. buffers st1 a = Some buf \<and> buf_item buf \<noteq> Some i)"
    by auto
  from sq obtain s1 q1 where s1: "sinks st1 ctx = Some s1" "audioq s1 = Some q1"
    by (auto simp: set_q_elems_def split: option.splits)
  have q1: "set (q_elems q) \<subseteq> set (q_elems q1)"
    using purge_elems_keeps_queue [OF pe s] s1 by simp
  have f2: "purge_frame i st1 st'"
    by (rule set_q_elems_frame [OF sq s1]) (use sub q1 in auto)
  have "purged i st' ctx"
    using sq s1 kept by (auto simp: set_q_elems_def purged_def)
  with f1 f2 show ?thesis by (auto intro: purge_frame_trans)
qed

lemma purge_sink_post:
  assumes "purging p i st k" and "purge_sink st k = Inr (st', v)"
  shows "v = 0 \<and> purge_frame i st st' \<and> purged i st' k"
proof -
  from assms(2) obtain st1 where q: "groove_queue_purge st k = Inr st1"
    and st': "st' = st1 \<or> st' = st1\<lparr>purge_calls := purge_calls st' \<rparr>" and v: "v = 0"
    by (auto simp: purge_sink_def split: sum.splits option.splits if_splits)
  from groove_queue_purge_post [OF assms(1) q] have 1: "purge_frame i st st1" "purged i st1 k"
    by auto
  from st' have "purge_frame i st1 st'"
    by (metis (no_types, lifting) purge_frame_def purge_frame_refl state.select_convs(3,4,5)
        state.surjective state.update_convs(6))
  with 1 v show ?thesis by (auto intro: purge_frame_trans purged_frame)
qed

lemma every_sink_stack_purge:
  assumes "\<forall>k \<in> set ks. purging p i st k"
    and "every_sink_stack purge_sink 0 st ks = Inr (st', r)"
  shows "r = None \<and> purge_frame i st st' \<and> (\<forall>k \<in> set ks. purged i st' k)"
  using assms
proof (induction ks arbitrary: st)
  case Nil
  then show ?case by (simp add: purge_frame_refl)
next
  case (Cons k ks)
  from Cons.prems(2) obtain st1 v where ps: "purge_sink st k = Inr (st1, v)"
    by (auto split: sum.splits)
  from Cons.prems(1) have "purging p i st k" by simp
  from purge_sink_post [OF this ps] have 1: "v = 0" "purge_frame i st st1" "purged i st1 k"
    by auto
  with Cons.prems(2) ps have rest: "every_sink_stack purge_sink 0 st1 ks = Inr (st', r)"
    by simp
  from Cons.prems(1) 1(2) have "\<forall>k \<in> set ks. purging p i st1 k"
    by (auto intro: purging_frame)
  from Cons.IH [OF this rest] 1 show ?case
    by (auto intro: purge_frame_trans purged_frame)
qed

lemma every_sink_map_purge:
  assumes "\<forall>k \<in> set (concat (map stack_head ms)). purging p i st k"
    and "every_sink_map purge_sink 0 st ms = Inr (st', r)"
  shows "purge_frame i st st' \<and> (\<forall>k \<in> set (concat (map stack_head ms)). purged i st' k)"
  using assms
proof (induction ms arbitrary: st)
  case Nil
  then show ?case by (simp add: purge_frame_refl)
next
  case (Cons m ms)
  from Cons.prems(2) obtain st1 r1 where es: "every_sink_stack purge_sink 0 st (stack_head m) = Inr (st1, r1)"
    by (auto split: sum.splits)
  from Cons.prems(1) have "\<forall>k \<in> set (stack_head m). purging p i st k" by simp
  from every_sink_stack_purge [OF this es] have 1: "r1 = None" "purge_frame i st st1"
    "\<forall>k \<in> set (stack_head m). purged i st1 k"
    by auto
  with Cons.prems(2) es have rest: "every_sink_map purge_sink 0 st1 ms = Inr (st', r)"
    by simp
  from Cons.prems(1) 1(2) have "\<forall>k \<in> set (concat (map stack_head ms)). purging p i st1 k"
    by (auto intro: purging_frame)
  from Cons.IH [OF this rest] 1 show ?case
    by (auto intro: purge_frame_trans purged_frame)
qed

lemma remove_prepare:
  assumes "playlists st playlist = Some p"
    and "skip_decode_head st playlist item = Inr st1"
    and "unlink_prev st1 playlist item = Inr st2"
    and "unlink_next st2 playlist item = Inr st3"
    and "set_purge_item st3 playlist (Some item) = Inr st4"
  shows "sinks st4 = sinks st \<and> buffers st4 = buffers st \<and>
         (\<exists>p4. playlists st4 playlist = Some p4 \<and> sink_map p4 = sink_map p \<and> purge_item p4 = Some item)"
proof -
  from assms(1,2) have 1: "sinks st1 = sinks st \<and> buffers st1 = buffers st \<and>
      (\<exists>p1. playlists st1 playlist = Some p1 \<and> sink_map p1 = sink_map p)"
    by (auto simp: skip_decode_head_def split: option.splits if_splits)
  with assms(3) have 2: "sinks st2 = sinks st \<and> buffers st2 = buffers st \<and>
      (\<exists>p2. playlists st2 playlist = Some p2 \<and> sink_map p2 = sink_map p)"
    by (auto simp: unlink_prev_def split: option.splits if_splits)
  with assms(4) have 3: "sinks st3 = sinks st \<and> buffers st3 = buffers st \<and>
      (\<exists>p3. playlists st3 playlist = Some p3 \<and> sink_map p3 = sink_map p)"
    by (auto simp: unlink_next_def split: option.splits if_splits)
  with assms(5) show ?thesis
    by (auto simp: set_purge_item_def split: option.splits if_splits)
qed


subsection \<open>Removing an item returns\<close>

lemma audioq_cleanup_sinks:
  assumes "audioq_cleanup st ctx obj = Inr st'" and "sinks st ctx = Some s"
  shows "playlists st' = playlists st \<and> (\<forall>k. k \<noteq> ctx \<longrightarrow> sinks st' k = sinks st k) \<and>
         (\<exists>z. sinks st' ctx = Some (s\<lparr>audioq_size := z\<rparr>))"
  using assms
  by (cases obj) (auto simp: audioq_cleanup_def groove_buffer_unref_def split: option.splits if_splits
      intro: exI [of _ "audioq_size s"])

lemma purge_elems_sinks:
  assumes "purge_elems st ctx xs = Inr (st', kept)" and "sinks st ctx = Some s"
  shows "playlists st' = playlists st \<and> (\<forall>k. k \<noteq> ctx \<longrightarrow> sinks st' k = sinks st k) \<and>
         (\<exists>z. sinks st' ctx = Some (s\<lparr>audioq_size := z\<rparr>))"
  using assms
proof (induction xs arbitrary: st s kept)
  case Nil
  then show ?case by (auto intro: exI [of _ "audioq_size s"])
next
  case (Cons obj rest)
  from Cons.prems obtain r where r: "audioq_purge st ctx obj = Inr r"
    by (auto split: sum.splits)
  show ?case
  proof (cases "r = 0")
    case True
    with Cons.prems r obtain kept' where "purge_elems st ctx rest = Inr (st', kept')"
      by (auto split: sum.splits)
    from Cons.IH [OF this Cons.prems(2)] show ?thesis .
  next
    case False
    with Cons.prems r obtain st1 where c: "audioq_cleanup st ctx obj = Inr st1"
      and p: "purge_elems st1 ctx rest = Inr (st', kept)"
      by (auto split: sum.splits)
    from audioq_cleanup_sinks [OF c Cons.prems(2)] obtain z where
      1: "playlists st1 = playlists st" "\<forall>k. k \<noteq> ctx \<longrightarrow> sinks st1 k = sinks st k"
        "sinks st1 ctx = Some (s\<lparr>audioq_size := z\<rparr>)"
      by blast
    from Cons.IH [OF p 1(3)] 1 show ?thesis by auto
  qed
qed

text \<open>
  The purge of one queue goes through when the reference counts cover the elements still
  to visit together with \<open>other\<close>, the references held elsewhere; afterwards they cover
  the elements kept together with \<open>other\<close>, and a buffer held elsewhere is still live.
\<close>

lemma purge_elems_total:
  assumes "sinks st ctx = Some s" and "sink_playlist s = Some playlist"
    and "playlists st playlist = Some p"
    and "\<forall>b. Some b \<in> set xs \<longrightarrow> buffers st b \<noteq> None"
    and "\<forall>b buf. buffers st b = Some buf \<longrightarrow> int (count_list xs (Some b)) + other b \<le> ref_count buf"
    and "\<forall>b. 0 \<le> other b"
  shows "\<exists>st' kept. purge_elems st ctx xs = Inr (st', kept) \<and>
     (\<forall>b. Some b \<in> set kept \<longrightarrow> buffers st' b \<noteq> None) \<and>
     (\<forall>b buf. buffers st' b = Some buf \<longrightarrow> int (count_list kept (Some b)) + other b \<le> ref_count buf) \<and>
     (\<forall>b. buffers st b \<noteq> None \<and> 0 < other b \<longrightarrow> buffers st' b \<noteq> None)"
  using assms
proof (induction xs arbitrary: st s other)
  case Nil
  then show ?case by simp
next
  case (Cons obj rest)
  show ?case
  proof (cases obj)
    case None
    have "\<exists>st' kept. purge_elems st ctx rest = Inr (st', kept) \<and>
       (\<forall>b. Some b \<in> set kept \<longrightarrow> buffers st' b \<noteq> None) \<and>
       (\<forall>b buf. buffers st' b = Some buf \<longrightarrow> int (count_list kept (Some b)) + other b \<le> ref_count buf) \<and>
       (\<forall>b. buffers st b \<noteq> None \<and> 0 < other b \<longrightarrow> buffers st' b \<noteq> None)"
      using Cons.prems None by (intro Cons.IH [of st s other]) auto
    then obtain st' kept where k: "purge_elems st ctx rest = Inr (st', kept)"
      "\<forall>b. Some b \<in> set kept \<longrightarrow> buffers st' b \<noteq> None"
      "\<forall>b buf. buffers st' b = Some buf \<longrightarrow> int (count_list kept (Some b)) + other b \<le> ref_count buf"
      "\<forall>b. buffers st b \<noteq> None \<and> 0 < other b \<longrightarrow> buffers st' b \<noteq> None"
      by blast
    from k(1) None have "purge_elems st ctx (obj # rest) = Inr (st', None # kept)"
      by (simp add: audioq_purge_def)
    with k(2-4) show ?thesis by auto
  next
    case (Some b)
    from Cons.prems(4) Some obtain buf where buf: "buffers st b = Some buf" by auto
    from Cons.prems(1,2,3) buf have pr: "audioq_purge st ctx (Some b) =
        Inr (if buf_item buf = purge_item p then 1 else 0)"
      by (simp add: audioq_purge_def)
    show ?thesis
    proof (cases "buf_item buf = purge_item p")
      case False
      let ?other = "\<lambda>b'. other b' + (if b' = b then 1 else 0)"
      have "\<exists>st' kept. purge_elems st ctx rest = Inr (st', kept) \<and>
         (\<forall>b. Some b \<in> set kept \<longrightarrow> buffers st' b \<noteq> None) \<and>
         (\<forall>b buf. buffers st' b = Some buf \<longrightarrow> int (count_list kept (Some b)) + ?other b \<le> ref_count buf) \<and>
         (\<forall>b. buffers st b \<noteq> None \<and> 0 < ?other b \<longrightarrow> buffers st' b \<noteq> None)"
      proof (intro Cons.IH [of st s ?other])
        show "\<forall>b' buf. buffers st b' = Some buf \<longrightarrow>
            int (count_list rest (Some b')) + ?other b' \<le> ref_count buf"
        proof (intro allI impI)
          fix b' buf' assume "buffers st b' = Some buf'"
          with Cons.prems(5) have "int (count_list (obj # rest) (Some b')) + other b' \<le> ref_count buf'"
            by blast
          with Some show "int (count_list rest (Some b')) + ?other b' \<le> ref_count buf'"
            by (simp split: if_splits)
        qed
        show "\<forall>b'. 0 \<le> ?other b'" using Cons.prems(6) by auto
      qed (use Cons.prems Some in auto)
      then obtain st' kept where k: "purge_elems st ctx rest = Inr (st', kept)"
        "\<forall>b. Some b \<in> set kept \<longrightarrow> buffers st' b \<noteq> None"
        "\<forall>b buf. buffers st' b = Some buf \<longrightarrow> int (count_list kept (Some b)) + ?other b \<le> ref_count buf"
        "\<forall>b. buffers st b \<noteq> None \<and> 0 < ?other b \<longrightarrow> buffers st' b \<noteq> None"
        by blast
      from k(1) Some pr False have run: "purge_elems st ctx (obj # rest) = Inr (st', Some b # kept)"
        by simp
      from k(4) buf Cons.prems(6) have live: "buffers st' b \<noteq> None"
        by (metis add_nonneg_pos option.simps(3) zero_less_one)
      have "\<forall>b'. buffers st b' \<noteq> None \<and> 0 < other b' \<longrightarrow> buffers st' b' \<noteq> None"
      proof (intro allI impI)
        fix b' assume a: "buffers st b' \<noteq> None \<and> 0 < other b'"
        then have "buffers st b' \<noteq> None \<and> 0 < ?other b'" by auto
        with k(4) show "buffers st' b' \<noteq> None" by blast
      qed
      moreover have "\<forall>b' buf. buffers st' b' = Some buf \<longrightarrow>
          int (count_list (Some b # kept) (Some b')) + other b' \<le> ref_count buf"
      proof (intro allI impI)
        fix b' buf' assume "buffers st' b' = Some buf'"
        with k(3) have "int (count_list kept (Some b')) + ?other b' \<le> ref_count buf'" by blast
        then show "int (count_list (Some b # kept) (Some b')) + other b' \<le> ref_count buf'"
          by (simp split: if_splits)
      qed
      ultimately show ?thesis using run k(2) live by auto
    next
      case True
      let ?s1 = "s\<lparr>audioq_size := audioq_size s - buf_size buf\<rparr>"
      let ?st0 = "st\<lparr>sinks := (sinks st)(ctx \<mapsto> ?s1)\<rparr>"
      let ?st1 = "if ref_count buf - 1 = 0
                  then ?st0\<lparr>buffers := (buffers st)(b := None)\<rparr>
                  else ?st0\<lparr>buffers := (buffers st)(b \<mapsto> buf\<lparr>ref_count := ref_count buf - 1\<rparr>)\<rparr>"
      from Cons.prems(1) buf have c: "audioq_cleanup st ctx (Some b) = Inr ?st1"
        by (simp add: audioq_cleanup_def groove_buffer_unref_def)
      from Cons.prems(5) buf have "int (count_list (obj # rest) (Some b)) + other b \<le> ref_count buf"
        by blast
      with Some have cnt: "1 + int (count_list rest (Some b)) + other b \<le> ref_count buf"
        by simp
      have "\<exists>st' kept. purge_elems ?st1 ctx rest = Inr (st', kept) \<and>
         (\<forall>b. Some b \<in> set kept \<longrightarrow> buffers st' b \<noteq> None) \<and>
         (\<forall>b buf. buffers st' b = Some buf \<longrightarrow> int (count_list kept (Some b)) + other b \<le> ref_count buf) \<and>
         (\<forall>b. buffers ?st1 b \<noteq> None \<and> 0 < other b \<longrightarrow> buffers st' b \<noteq> None)"
      proof (intro Cons.IH [of ?st1 ?s1 other])
        show "sinks ?st1 ctx = Some ?s1" by simp
        show "sink_playlist ?s1 = Some playlist" using Cons.prems(2) by simp
        show "playlists ?st1 playlist = Some p" using Cons.prems(3) by simp
        show "\<forall>b'. Some b' \<in> set rest \<longrightarrow> buffers ?st1 b' \<noteq> None"
        proof (intro allI impI)
          fix b' assume b': "Some b' \<in> set rest"
          with Cons.prems(4) have "buffers st b' \<noteq> None" by simp
          moreover have "b' \<noteq> b" if "ref_count buf - 1 = 0"
          proof
            assume "b' = b"
            with b' have "count_list rest (Some b) \<noteq> 0" by (simp add: count_list_0_iff)
            then have "0 < count_list rest (Some b)" by simp
            with cnt that Cons.prems(6) [rule_format, of b] show False by simp
          qed
          ultimately show "buffers ?st1 b' \<noteq> None" by auto
        qed
        show "\<forall>b' buf'. buffers ?st1 b' = Some buf' \<longrightarrow>
            int (count_list rest (Some b')) + other b' \<le> ref_count buf'"
        proof (intro allI impI)
          fix b' buf' assume l: "buffers ?st1 b' = Some buf'"
          show "int (count_list rest (Some b')) + other b' \<le> ref_count buf'"
          proof (cases "b' = b")
            case True
            with l cnt show ?thesis by (auto split: if_splits)
          next
            case False
            with l have "buffers st b' = Some buf'" by (auto split: if_splits)
            with Cons.prems(5) have "int (count_list (obj # rest) (Some b')) + other b' \<le> ref_count buf'"
              by blast
            with Some False show ?thesis by simp
          qed
        qed
        show "\<forall>b. 0 \<le> other b" by (rule Cons.prems(6))
      qed
      then obtain st' kept where k: "purge_elems ?st1 ctx rest = Inr (st', kept)"
        "\<forall>b. Some b \<in> set kept \<longrightarrow> buffers st' b \<noteq> None"
        "\<forall>b buf. buffers st' b = Some buf \<longrightarrow> int (count_list kept (Some b)) + other b \<le> ref_count buf"
        "\<forall>b. buffers ?st1 b \<noteq> None \<and> 0 < other b \<longrightarrow> buffers st' b \<noteq> None"
        by blast
      from k(1) Some pr True c have run: "purge_elems st ctx (obj # rest) = Inr (st', kept)"
        by simp
      have "buffers st' b' \<noteq> None" if "buffers st b' \<noteq> None" "0 < other b'" for b'
      proof -
        have "buffers ?st1 b' \<noteq> None"
        proof (cases "b' = b")
          case True
          with cnt that(2) have "ref_count buf - 1 \<noteq> 0" by simp
          with True show ?thesis by simp
        next
          case False
          with that(1) show ?thesis by simp
        qed
        with k(4) that(2) show ?thesis by simp
      qed
      with run k(2,3) show ?thesis by auto
    qed
  qed
qed

lemma queue_refs_remove:
  assumes "finite K" and "k \<in> K"
  shows "queue_refs st K b = int (count_list (queue_of st k) (Some b)) + queue_refs st (K - {k}) b"
  unfolding queue_refs_def using assms by (rule sum.remove)

lemma queue_refs_cong:
  assumes "\<forall>k \<in> K. queue_of st' k = queue_of st k"
  shows "queue_refs st' K b = queue_refs st K b"
  unfolding queue_refs_def using assms by (intro sum.cong) auto

lemma queue_refs_nonneg: "0 \<le> queue_refs st K b"
  unfolding queue_refs_def by (rule sum_nonneg) simp

lemma queue_refs_pos:
  assumes "finite K" and "k \<in> K" and "Some b \<in> set (queue_of st k)"
  shows "0 < queue_refs st K b"
proof -
  from assms(3) have "count_list (queue_of st k) (Some b) \<noteq> 0"
    by (simp add: count_list_0_iff)
  then have "0 < int (count_list (queue_of st k) (Some b))" by simp
  with queue_refs_remove [OF assms(1,2), of st b] queue_refs_nonneg [of st "K - {k}" b]
  show ?thesis by linarith
qed

text \<open>Purging one sink goes through and keeps the queues sound.\<close>

lemma purge_sink_total:
  assumes ok: "sinks_ok st playlist K" and fin: "finite K" and k: "k \<in> K"
    and p: "playlists st playlist = Some p"
  shows "\<exists>st'. purge_sink st k = Inr (st', 0) \<and> sinks_ok st' playlist K \<and>
           playlists st' = playlists st"
proof -
  from ok k obtain s q where s: "sinks st k = Some s" "sink_playlist s = Some playlist"
      "audioq s = Some q" "\<forall>b. Some b \<in> set (q_elems q) \<longrightarrow> buffers st b \<noteq> None"
    unfolding sinks_ok_def by blast
  from s have qk: "queue_of st k = q_elems q" by (simp add: queue_of_def)
  let ?other = "queue_refs st (K - {k})"
  have r: "\<forall>b buf. buffers st b = Some buf \<longrightarrow>
      int (count_list (q_elems q) (Some b)) + ?other b \<le> ref_count buf"
  proof (intro allI impI)
    fix b buf assume "buffers st b = Some buf"
    with ok have "queue_refs st K b \<le> ref_count buf" unfolding sinks_ok_def by blast
    with queue_refs_remove [OF fin k, of st b] qk
    show "int (count_list (q_elems q) (Some b)) + ?other b \<le> ref_count buf" by simp
  qed
  have nn: "\<forall>b. 0 \<le> ?other b" by (simp add: queue_refs_nonneg)
  from purge_elems_total [OF s(1,2) p s(4) r nn] obtain st1 kept where
    pe: "purge_elems st k (q_elems q) = Inr (st1, kept)"
    and kept: "\<forall>b. Some b \<in> set kept \<longrightarrow> buffers st1 b \<noteq> None"
    and cnt: "\<forall>b buf. buffers st1 b = Some buf \<longrightarrow> int (count_list kept (Some b)) + ?other b \<le> ref_count buf"
    and held: "\<forall>b. buffers st b \<noteq> None \<and> 0 < ?other b \<longrightarrow> buffers st1 b \<noteq> None"
    by blast
  from purge_elems_sinks [OF pe s(1)] obtain z where
    fr: "playlists st1 = playlists st" "\<forall>k'. k' \<noteq> k \<longrightarrow> sinks st1 k' = sinks st k'"
      "sinks st1 k = Some (s\<lparr>audioq_size := z\<rparr>)"
    by blast
  let ?s2 = "s\<lparr>audioq_size := z, audioq := Some (q\<lparr>q_elems := kept\<rparr>)\<rparr>"
  let ?st2 = "st1\<lparr>sinks := (sinks st1)(k \<mapsto> ?s2)\<rparr>"
  from fr(3) s(3) have sq: "set_q_elems st1 k kept = Inr ?st2"
    by (simp add: set_q_elems_def)
  from s pe sq have gp: "groove_queue_purge st k = Inr ?st2"
    by (simp add: groove_queue_purge_def)
  define st' where "st' = (if has_purge ?s2
      then ?st2\<lparr>purge_calls := purge_calls ?st2 @ [(k, purge_item p)]\<rparr> else ?st2)"
  from gp s(2) fr(1) p have run: "purge_sink st k = Inr (st', 0)"
    by (simp add: purge_sink_def st'_def)
  have st': "sinks st' = (sinks st1)(k \<mapsto> ?s2)" "buffers st' = buffers st1"
    "playlists st' = playlists st"
    using fr(1) by (simp_all add: st'_def)
  have q': "queue_of st' k' = (if k' = k then kept else queue_of st k')" for k'
    using st'(1) fr(2) by (simp add: queue_of_def)
  have "sinks_ok st' playlist K"
    unfolding sinks_ok_def
  proof (intro conjI ballI allI impI)
    fix k' assume k': "k' \<in> K"
    show "\<exists>s q. sinks st' k' = Some s \<and> sink_playlist s = Some playlist \<and> audioq s = Some q \<and>
        (\<forall>b. Some b \<in> set (q_elems q) \<longrightarrow> buffers st' b \<noteq> None)"
    proof (cases "k' = k")
      case True
      with st' s(2) kept show ?thesis by simp
    next
      case False
      from ok k' obtain s' q' where s': "sinks st k' = Some s'" "sink_playlist s' = Some playlist"
          "audioq s' = Some q'" "\<forall>b. Some b \<in> set (q_elems q') \<longrightarrow> buffers st b \<noteq> None"
        unfolding sinks_ok_def by blast
      have "buffers st' b \<noteq> None" if b: "Some b \<in> set (q_elems q')" for b
      proof -
        from s' have "queue_of st k' = q_elems q'" by (simp add: queue_of_def)
        with b k' False fin have "0 < ?other b"
          by (intro queue_refs_pos [of _ k']) auto
        with held s'(4) b st'(2) show ?thesis by simp
      qed
      with False st'(1) fr(2) s' show ?thesis by simp
    qed
  next
    fix b buf assume "buffers st' b = Some buf"
    with st'(2) cnt have "int (count_list kept (Some b)) + ?other b \<le> ref_count buf" by simp
    moreover have "queue_refs st' (K - {k}) b = ?other b"
      by (rule queue_refs_cong) (simp add: q')
    moreover have "queue_of st' k = kept" by (simp add: q')
    ultimately show "queue_refs st' K b \<le> ref_count buf"
      using queue_refs_remove [OF fin k, of st' b] by simp
  qed
  with run st'(3) show ?thesis by blast
qed

lemma every_sink_stack_purge_total:
  assumes "sinks_ok st playlist K" and "finite K" and "set ks \<subseteq> K"
    and "playlists st playlist = Some p"
  shows "\<exists>st'. every_sink_stack purge_sink 0 st ks = Inr (st', None) \<and> sinks_ok st' playlist K \<and>
           playlists st' = playlists st"
  using assms
proof (induction ks arbitrary: st)
  case Nil
  then show ?case by simp
next
  case (Cons k ks)
  from Cons.prems(3) have k: "k \<in> K" by simp
  from purge_sink_total [OF Cons.prems(1,2) k Cons.prems(4)] obtain st1 where
    1: "purge_sink st k = Inr (st1, 0)" "sinks_ok st1 playlist K" "playlists st1 = playlists st"
    by blast
  from Cons.prems(3) have "set ks \<subseteq> K" by simp
  moreover from 1(3) Cons.prems(4) have "playlists st1 playlist = Some p" by simp
  ultimately obtain st' where
    2: "every_sink_stack purge_sink 0 st1 ks = Inr (st', None)" "sinks_ok st' playlist K"
      "playlists st' = playlists st1"
    using Cons.IH [OF 1(2) Cons.prems(2)] by blast
  from 1 2 show ?case by simp
qed

lemma every_sink_map_purge_total:
  assumes "sinks_ok st playlist K" and "finite K" and "set (concat (map stack_head ms)) \<subseteq> K"
    and "playlists st playlist = Some p"
  shows "\<exists>st'. every_sink_map purge_sink 0 st ms = Inr (st', 0) \<and> sinks_ok st' playlist K \<and>
           playlists st' = playlists st"
  using assms
proof (induction ms arbitrary: st)
  case Nil
  then show ?case by simp
next
  case (Cons m ms)
  from Cons.prems(3) have "set (stack_head m) \<subseteq> K" by simp
  from every_sink_stack_purge_total [OF Cons.prems(1,2) this Cons.prems(4)] obtain st1 where
    1: "every_sink_stack purge_sink 0 st (stack_head m) = Inr (st1, None)" "sinks_ok st1 playlist K"
      "playlists st1 = playlists st"
    by blast
  from Cons.prems(3) have "set (concat (map stack_head ms)) \<subseteq> K" by simp
  moreover from 1(3) Cons.prems(4) have "playlists st1 playlist = Some p" by simp
  ultimately obtain st' where
    2: "every_sink_map purge_sink 0 st1 ms = Inr (st', 0)" "sinks_ok st' playlist K"
      "playlists st' = playlists st1"
    using Cons.IH [OF 1(2) Cons.prems(2)] by blast
  from 1 2 show ?case by simp
qed

lemma sinks_ok_cong:
  assumes "sinks_ok st playlist K" and "sinks st' = sinks st" and "buffers st' = buffers st"
  shows "sinks_ok st' playlist K"
proof -
  from assms(2) have "queue_of st' = queue_of st" by (simp add: queue_of_def fun_eq_iff)
  then have "queue_refs st' K = queue_refs st K" by (simp add: queue_refs_def fun_eq_iff)
  with assms show ?thesis by (simp add: sinks_ok_def)
qed

text \<open>
  Removing a live item whose neighbours are live goes through when the queues of the
  attached sinks are sound, and keeps them sound.
\<close>

lemma groove_playlist_remove_total:
  assumes ok: "queues_ok st playlist" and it: "items st item = Some it"
    and pr: "\<forall>a. item_prev it = Some a \<longrightarrow> items st a \<noteq> None"
    and nx: "\<forall>a. item_next it = Some a \<longrightarrow> items st a \<noteq> None"
  shows "\<exists>st'. groove_playlist_remove st playlist item = Inr st' \<and> queues_ok st' playlist"
proof -
  from ok obtain p where p: "playlists st playlist = Some p"
    and sok: "sinks_ok st playlist (set (attached_sinks p))"
    by (auto simp: queues_ok_def split: option.splits)
  have "\<exists>st1. skip_decode_head st playlist item = Inr st1"
    using p it by (simp add: skip_decode_head_def)
  then obtain st1 where 1: "skip_decode_head st playlist item = Inr st1" ..
  from 1 p it have i1: "items st1 = items st"
    by (auto simp: skip_decode_head_def split: if_splits)
  from 1 p it have "\<exists>p1. playlists st1 playlist = Some p1"
    by (auto simp: skip_decode_head_def split: if_splits)
  then obtain p1 where p1: "playlists st1 playlist = Some p1" ..
  have "\<exists>st2. unlink_prev st1 playlist item = Inr st2"
    using it pr i1 p1 by (cases "item_prev it") (auto simp: unlink_prev_def)
  then obtain st2 where 2: "unlink_prev st1 playlist item = Inr st2" ..
  from 2 it i1 p1 pr have i2: "\<exists>it2. items st2 item = Some it2 \<and> item_next it2 = item_next it \<or>
      item_prev it = Some item"
    by (cases "item_prev it") (auto simp: unlink_prev_def)
  from 2 it i1 p1 pr have d2: "\<forall>a. items st a \<noteq> None \<longrightarrow> items st2 a \<noteq> None"
    by (cases "item_prev it") (auto simp: unlink_prev_def)
  from 2 it i1 p1 pr have "\<exists>p2. playlists st2 playlist = Some p2"
    by (cases "item_prev it") (auto simp: unlink_prev_def)
  then obtain p2 where p2: "playlists st2 playlist = Some p2" ..
  from d2 it obtain it2 where it2: "items st2 item = Some it2" by auto
  have n2: "\<forall>a. item_next it2 = Some a \<longrightarrow> items st2 a \<noteq> None"
  proof (cases "item_prev it = Some item")
    case True
    with 2 it i1 it2 have "item_next it2 = item_next it"
      by (auto simp: unlink_prev_def)
    with nx d2 show ?thesis by auto
  next
    case False
    with i2 it2 have "item_next it2 = item_next it" by auto
    with nx d2 show ?thesis by auto
  qed
  have "\<exists>st3. unlink_next st2 playlist item = Inr st3"
    using it2 n2 p2 by (cases "item_next it2") (auto simp: unlink_next_def)
  then obtain st3 where 3: "unlink_next st2 playlist item = Inr st3" ..
  from 3 it2 n2 p2 have "\<exists>p3. playlists st3 playlist = Some p3"
    by (cases "item_next it2") (auto simp: unlink_next_def)
  then obtain p3 where p3: "playlists st3 playlist = Some p3" ..
  from p3 have "\<exists>st4. set_purge_item st3 playlist (Some item) = Inr st4"
    by (simp add: set_purge_item_def)
  then obtain st4 where 4: "set_purge_item st3 playlist (Some item) = Inr st4" ..
  from remove_prepare [OF p 1 2 3 4] obtain p4 where
    st4: "sinks st4 = sinks st" "buffers st4 = buffers st" "playlists st4 playlist = Some p4"
      "sink_map p4 = sink_map p" "purge_item p4 = Some item"
    by auto
  from sinks_ok_cong [OF sok st4(1,2)] have ok4: "sinks_ok st4 playlist (set (attached_sinks p))" .
  have sub: "set (concat (map stack_head (sink_map p4))) \<subseteq> set (attached_sinks p)"
    by (simp add: attached_sinks_def st4(4))
  from every_sink_map_purge_total [OF ok4 _ sub st4(3)] obtain st5 where
    5: "every_sink_map purge_sink 0 st4 (sink_map p4) = Inr (st5, 0)"
      "sinks_ok st5 playlist (set (attached_sinks p))" "playlists st5 = playlists st4"
    by auto
  from 5(1) st4(3) have e: "every_sink st4 playlist purge_sink 0 = Inr (st5, 0)"
    by (simp add: every_sink_def)
  let ?st6 = "st5\<lparr>playlists := (playlists st5)(playlist \<mapsto> p4\<lparr>purge_item := None\<rparr>)\<rparr>"
  from 5(3) st4(3) have 6: "set_purge_item st5 playlist None = Inr ?st6"
    by (simp add: set_purge_item_def)
  from 1 2 3 4 e 6 have run: "groove_playlist_remove st playlist item = Inr (av_free_item ?st6 item)"
    by (simp add: groove_playlist_remove_def)
  have "sinks_ok (av_free_item ?st6 item) playlist (set (attached_sinks p))"
    by (rule sinks_ok_cong [OF 5(2)]) (simp_all add: av_free_item_def)
  then have "queues_ok (av_free_item ?st6 item) playlist"
    by (simp add: queues_ok_def av_free_item_def attached_sinks_def st4(4))
  with run show ?thesis by blast
qed

subsection \<open>Removing an item removes exactly the buffers of the item\<close>










subsection \<open>The attached sinks point back to their playlist\<close>

lemma attached_ok_cong:
  assumes "attached_ok st" and "playlists st' = playlists st"
    and "\<forall>k. map_option sink_playlist (sinks st' k) = map_option sink_playlist (sinks st k)"
  shows "attached_ok st'"
  unfolding attached_ok_def
proof (intro allI impI conjI ballI)
  fix pl p assume p: "playlists st' pl = Some p"
  with assms(1,2) show "distinct (attached_sinks p)" by (simp add: attached_ok_def)
  fix k assume "k \<in> set (attached_sinks p)"
  with p assms(1,2) obtain s where "sinks st k = Some s" "sink_playlist s = Some pl"
    unfolding attached_ok_def by fastforce
  with assms(3) [rule_format, of k] show "\<exists>s. sinks st' k = Some s \<and> sink_playlist s = Some pl"
    by (cases "sinks st' k") auto
qed

lemma push_matching_split:
  "push_matching st sink m = Inr (Some m') \<Longrightarrow>
   \<exists>xs ys. concat (map stack_head m) = xs @ ys \<and> concat (map stack_head m') = xs @ sink # ys"
proof (induction m arbitrary: m')
  case Nil
  then show ?case by simp
next
  case (Cons g rest)
  from Cons.prems obtain example tl ex s where g: "stack_head g = example # tl"
    "sinks st example = Some ex" "sinks st sink = Some s"
    by (auto split: list.splits option.splits)
  show ?case
  proof (cases "sink_formats_equal ex s \<noteq> 0")
    case True
    with Cons.prems g have "m' = g\<lparr>stack_head := sink # stack_head g\<rparr> # rest" by simp
    then show ?thesis by (intro exI [of _ "[]"] exI [of _ "concat (map stack_head (g # rest))"]) simp
  next
    case False
    with Cons.prems g obtain rest' where r: "push_matching st sink rest = Inr (Some rest')"
      "m' = g # rest'"
      by (auto split: sum.splits option.splits)
    from Cons.IH [OF r(1)] obtain xs ys where
      "concat (map stack_head rest) = xs @ ys" "concat (map stack_head rest') = xs @ sink # ys"
      by blast
    with r(2) show ?thesis
      by (intro exI [of _ "stack_head g @ xs"] exI [of _ ys]) simp
  qed
qed

lemma add_sink_to_map_split:
  assumes "add_sink_to_map st playlist sink stack_entry map_entry = Inr (st', r)"
  shows "r = 0 \<and> sinks st' = sinks st \<and> (\<forall>q. q \<noteq> playlist \<longrightarrow> playlists st' q = playlists st q) \<and>
         (\<exists>p p' xs ys. playlists st playlist = Some p \<and> playlists st' playlist = Some p' \<and>
            attached_sinks p = xs @ ys \<and> attached_sinks p' = xs @ sink # ys)"
proof -
  from assms obtain p where p: "playlists st playlist = Some p" and se: "stack_entry \<noteq> None"
    by (auto simp: add_sink_to_map_def split: option.splits if_splits)
  from assms p se obtain res where pm: "push_matching st sink (sink_map p) = Inr res"
    by (auto simp: add_sink_to_map_def split: option.splits sum.splits)
  show ?thesis
  proof (cases res)
    case (Some m)
    from push_matching_split [OF pm [unfolded Some]] obtain xs ys where
      "concat (map stack_head (sink_map p)) = xs @ ys" "concat (map stack_head m) = xs @ sink # ys"
      by blast
    then have split: "attached_sinks p = xs @ ys" "attached_sinks (p\<lparr>sink_map := m\<rparr>) = xs @ sink # ys"
      by (simp_all add: attached_sinks_def)
    from assms p se pm Some have r: "r = 0"
      and st': "st' = st\<lparr>playlists := (playlists st)(playlist \<mapsto> p\<lparr>sink_map := m\<rparr>)\<rparr>"
      by (auto simp: add_sink_to_map_def split: option.splits)
    have "\<exists>p p' xs ys. playlists st playlist = Some p \<and> playlists st' playlist = Some p' \<and>
            attached_sinks p = xs @ ys \<and> attached_sinks p' = xs @ sink # ys"
      using p st' split
      by (intro exI [of _ p] exI [of _ "p\<lparr>sink_map := m\<rparr>"] exI [of _ xs] exI [of _ ys]) simp
    with r st' show ?thesis by simp
  next
    case None
    let ?p' = "p\<lparr>sink_map := \<lparr>stack_head = [sink], aformat_ctx = None, abuffersink_ctx = None\<rparr> # sink_map p,
                  sink_map_count := sink_map_count p + 1\<rparr>"
    from assms p se pm None have r: "r = 0"
      and st': "st' = st\<lparr>playlists := (playlists st)(playlist \<mapsto> ?p')\<rparr>"
      by (auto simp: add_sink_to_map_def split: option.splits if_splits)
    have "\<exists>p p' xs ys. playlists st playlist = Some p \<and> playlists st' playlist = Some p' \<and>
            attached_sinks p = xs @ ys \<and> attached_sinks p' = xs @ sink # ys"
      using p st'
      by (intro exI [of _ p] exI [of _ ?p'] exI [of _ "[]"] exI [of _ "attached_sinks p"])
         (simp add: attached_sinks_def)
    with r st' show ?thesis by simp
  qed
qed

text \<open>
  \<open>groove_sink_attach\<close> of a detached sink (its \<open>playlist\<close> is null) keeps the sinks and
  the playlists in agreement, and leaves the sink attached and pointing to the playlist.
\<close>

lemma groove_sink_attach_ok:
  assumes ok: "attached_ok st" and s: "sinks st sink = Some s" "sink_playlist s = None"
    and run: "groove_sink_attach nb_channels bytes_per_sample st sink playlist stack_entry map_entry =
              Inr (st', r)"
  shows "r = 0 \<and> attached_ok st' \<and>
         (\<exists>p'. playlists st' playlist = Some p' \<and> sink \<in> set (attached_sinks p')) \<and>
         (\<exists>s'. sinks st' sink = Some s' \<and> sink_playlist s' = Some playlist)"
proof -
  define s1 where "s1 = s\<lparr>bytes_per_sec :=
      nb_channels (channel_layout (audio_format s)) * bytes_per_sample (sample_fmt (audio_format s)) *
      sample_rate (audio_format s),
    min_audioq_size := buffer_size s *
      (nb_channels (channel_layout (audio_format s)) * bytes_per_sample (sample_fmt (audio_format s)))\<rparr>"
  define st1 where "st1 = st\<lparr>sinks := (sinks st)(sink \<mapsto> s1)\<rparr>"
  from run s obtain st2 err where add: "add_sink_to_map st1 playlist sink stack_entry map_entry = Inr (st2, err)"
    by (auto simp: groove_sink_attach_def Let_def st1_def s1_def split: if_splits sum.splits)
  from add_sink_to_map_split [OF add] obtain p p' xs ys where
    a: "err = 0" "sinks st2 = sinks st1" "\<forall>q. q \<noteq> playlist \<longrightarrow> playlists st2 q = playlists st1 q"
      "playlists st1 playlist = Some p" "playlists st2 playlist = Some p'"
      "attached_sinks p = xs @ ys" "attached_sinks p' = xs @ sink # ys"
    by blast
  from run s add a(1) obtain st3 s3 where reset: "groove_queue_reset st2 sink = Inr st3"
    and s3: "sinks st3 sink = Some s3"
    and st': "st' = st3\<lparr>sinks := (sinks st3)(sink \<mapsto> s3\<lparr>sink_playlist := Some playlist\<rparr>)\<rparr>" "r = 0"
    by (auto simp: groove_sink_attach_def Let_def st1_def s1_def split: if_splits sum.splits option.splits)
  from reset have 3: "playlists st3 = playlists st2" "\<forall>k. k \<noteq> sink \<longrightarrow> sinks st3 k = sinks st2 k"
    by (auto simp: groove_queue_reset_def set_q_abort_def split: option.splits)
  have pl: "playlists st' = playlists st2" using st' 3 by simp
  have other: "\<forall>k. k \<noteq> sink \<longrightarrow> sinks st' k = sinks st k"
    using st' 3 a(2) by (simp add: st1_def)
  have mine: "sinks st' sink = Some (s3\<lparr>sink_playlist := Some playlist\<rparr>)" using st' by simp
  have free: "sink \<notin> set (attached_sinks q)" if "playlists st pl0 = Some q" for pl0 q
  proof
    assume "sink \<in> set (attached_sinks q)"
    with ok that obtain s0 where "sinks st sink = Some s0" "sink_playlist s0 = Some pl0"
      unfolding attached_ok_def by blast
    with s show False by simp
  qed
  have p: "playlists st playlist = Some p" using a(4) by (simp add: st1_def)
  have "attached_ok st'"
    unfolding attached_ok_def
  proof (intro allI impI)
    fix pl0 q assume q: "playlists st' pl0 = Some q"
    show "distinct (attached_sinks q) \<and>
        (\<forall>k \<in> set (attached_sinks q). \<exists>s. sinks st' k = Some s \<and> sink_playlist s = Some pl0)"
    proof (cases "pl0 = playlist")
      case True
      with q pl a(5) have qq: "q = p'" by simp
      from ok p have d: "distinct (attached_sinks p)"
        and bk: "\<forall>k \<in> set (attached_sinks p). \<exists>s. sinks st k = Some s \<and> sink_playlist s = Some playlist"
        unfolding attached_ok_def by blast+
      from free [OF p] a(6) have nin: "sink \<notin> set xs" "sink \<notin> set ys" by simp_all
      from d a(6,7) nin have "distinct (attached_sinks p')" by simp
      moreover have "\<exists>s. sinks st' k = Some s \<and> sink_playlist s = Some playlist"
        if "k \<in> set (attached_sinks p')" for k
      proof (cases "k = sink")
        case True
        with mine show ?thesis by simp
      next
        case False
        with that a(6,7) have "k \<in> set (attached_sinks p)" by auto
        with bk other False show ?thesis by simp
      qed
      ultimately show ?thesis using qq True by blast
    next
      case False
      with q pl a(3) have q0: "playlists st pl0 = Some q" by (simp add: st1_def)
      with ok have d: "distinct (attached_sinks q)"
        and bk: "\<forall>k \<in> set (attached_sinks q). \<exists>s. sinks st k = Some s \<and> sink_playlist s = Some pl0"
        unfolding attached_ok_def by blast+
      have "\<exists>s. sinks st' k = Some s \<and> sink_playlist s = Some pl0"
        if "k \<in> set (attached_sinks q)" for k
      proof -
        from free [OF q0] that have "k \<noteq> sink" by auto
        with bk that other show ?thesis by simp
      qed
      with d show ?thesis by blast
    qed
  qed
  moreover from pl a(5,7) have "\<exists>p'. playlists st' playlist = Some p' \<and> sink \<in> set (attached_sinks p')"
    by simp
  ultimately show ?thesis using st'(2) mine by simp
qed

lemma attached_ok_back:
  "attached_ok st \<Longrightarrow> playlists st playlist = Some p \<Longrightarrow>
   \<forall>k \<in> set (attached_sinks p). \<exists>s. sinks st k = Some s \<and> sink_playlist s = Some playlist"
  unfolding attached_ok_def by blast

lemma groove_playlist_create_ok:
  "attached_ok st \<Longrightarrow> attached_ok (fst (groove_playlist_create st new_playlist inits_ok))"
  by (auto simp: groove_playlist_create_def attached_ok_def attached_sinks_def split: option.splits)

lemma remove_from_stack_split:
  "remove_from_stack sink xs = Some ys \<Longrightarrow> \<exists>a b. xs = a @ sink # b \<and> ys = a @ b"
proof (induction xs arbitrary: ys)
  case Nil
  then show ?case by simp
next
  case (Cons x xs)
  show ?case
  proof (cases "x = sink")
    case True
    with Cons.prems show ?thesis by (intro exI [of _ "[]"] exI [of _ xs]) simp
  next
    case False
    with Cons.prems obtain ys' where r: "remove_from_stack sink xs = Some ys'" "ys = x # ys'"
      by (auto split: option.splits)
    from Cons.IH [OF r(1)] obtain a b where "xs = a @ sink # b" "ys' = a @ b" by blast
    with r(2) show ?thesis by (intro exI [of _ "x # a"] exI [of _ b]) simp
  qed
qed

lemma remove_from_stack_none: "remove_from_stack sink xs = None \<Longrightarrow> sink \<notin> set xs"
  by (induction xs) (auto split: if_splits option.splits)

lemma remove_from_map_split:
  "remove_from_map sink m = Some (m', deleted) \<Longrightarrow>
   \<exists>a b. concat (map stack_head m) = a @ sink # b \<and> concat (map stack_head m') = a @ b"
proof (induction m arbitrary: m' deleted)
  case Nil
  then show ?case by simp
next
  case (Cons g rest)
  show ?case
  proof (cases "remove_from_stack sink (stack_head g)")
    case None
    with Cons.prems obtain rest' where r: "remove_from_map sink rest = Some (rest', deleted)"
      "m' = g # rest'"
      by (auto split: option.splits)
    from Cons.IH [OF r(1)] obtain a b where
      "concat (map stack_head rest) = a @ sink # b" "concat (map stack_head rest') = a @ b"
      by blast
    with r(2) show ?thesis by (intro exI [of _ "stack_head g @ a"] exI [of _ b]) simp
  next
    case (Some ys)
    from remove_from_stack_split [OF Some] obtain a b where
      ab: "stack_head g = a @ sink # b" "ys = a @ b"
      by blast
    from Cons.prems Some have "concat (map stack_head m') = ys @ concat (map stack_head rest)"
      by (cases ys) auto
    with ab show ?thesis
      by (intro exI [of _ a] exI [of _ "b @ concat (map stack_head rest)"]) simp
  qed
qed

lemma remove_from_map_none:
  "remove_from_map sink m = None \<Longrightarrow> sink \<notin> set (concat (map stack_head m))"
proof (induction m)
  case Nil
  then show ?case by simp
next
  case (Cons g rest)
  then show ?case
    by (auto split: option.splits list.splits dest: remove_from_stack_none)
qed

lemma flush_elems_sinks:
  assumes "flush_elems st ctx xs = Inr st'" and "sinks st ctx = Some s"
  shows "playlists st' = playlists st \<and> (\<forall>k. k \<noteq> ctx \<longrightarrow> sinks st' k = sinks st k) \<and>
         (\<exists>z. sinks st' ctx = Some (s\<lparr>audioq_size := z\<rparr>))"
  using assms
proof (induction xs arbitrary: st s)
  case Nil
  then show ?case by (auto intro: exI [of _ "audioq_size s"])
next
  case (Cons obj rest)
  from Cons.prems obtain st1 where c: "audioq_cleanup st ctx obj = Inr st1"
    and f: "flush_elems st1 ctx rest = Inr st'"
    by (auto split: sum.splits)
  from audioq_cleanup_sinks [OF c Cons.prems(2)] obtain z where
    1: "playlists st1 = playlists st" "\<forall>k. k \<noteq> ctx \<longrightarrow> sinks st1 k = sinks st k"
      "sinks st1 ctx = Some (s\<lparr>audioq_size := z\<rparr>)"
    by blast
  from Cons.IH [OF f 1(3)] 1 show ?case by auto
qed

text \<open>What \<open>groove_sink_detach\<close> does before it takes the sink from the map (lines 744-747).\<close>

lemma detach_flush_owner:
  assumes "sinks st sink = Some s"
    and "(if audioq s \<noteq> None
          then (case groove_queue_abort st sink of
                  Inl e \<Rightarrow> Inl e
                | Inr st' \<Rightarrow> groove_queue_flush st' sink)
          else Inr st) = Inr st1"
  shows "playlists st1 = playlists st \<and>
         (\<forall>k. map_option sink_playlist (sinks st1 k) = map_option sink_playlist (sinks st k))"
proof (cases "audioq s")
  case None
  with assms show ?thesis by simp
next
  case (Some q)
  let ?s0 = "s\<lparr>audioq := Some (q\<lparr>q_abort := True\<rparr>)\<rparr>"
  let ?st0 = "st\<lparr>sinks := (sinks st)(sink \<mapsto> ?s0)\<rparr>"
  from assms Some have a: "groove_queue_abort st sink = Inr ?st0"
    by (simp add: groove_queue_abort_def set_q_abort_def)
  with assms Some have fl: "groove_queue_flush ?st0 sink = Inr st1" by simp
  then obtain st2 where fe: "flush_elems ?st0 sink (q_elems q) = Inr st2"
    and sq: "set_q_elems st2 sink [] = Inr st1"
    by (auto simp: groove_queue_flush_def split: sum.splits)
  have "sinks ?st0 sink = Some ?s0" by simp
  from flush_elems_sinks [OF fe this] obtain z where
    2: "playlists st2 = playlists ?st0" "\<forall>k. k \<noteq> sink \<longrightarrow> sinks st2 k = sinks ?st0 k"
      "sinks st2 sink = Some (?s0\<lparr>audioq_size := z\<rparr>)"
    by blast
  from sq 2(3) have 1: "playlists st1 = playlists st2" "\<forall>k. k \<noteq> sink \<longrightarrow> sinks st1 k = sinks st2 k"
    "map_option sink_playlist (sinks st1 sink) = Some (sink_playlist s)"
    by (auto simp: set_q_elems_def)
  have "map_option sink_playlist (sinks st1 k) = map_option sink_playlist (sinks st k)" for k
    using 1 2 assms(1) by (cases "k = sink") auto
  with 1(1) 2(1) show ?thesis by simp
qed

text \<open>\<open>groove_sink_detach\<close> keeps the sinks and the playlists in agreement.\<close>

lemma groove_sink_detach_ok:
  assumes ok: "attached_ok st" and run: "groove_sink_detach st sink = Inr (st', r)"
  shows "attached_ok st'"
proof -
  from run obtain s where s: "sinks st sink = Some s"
    by (auto simp: groove_sink_detach_def split: option.splits)
  show ?thesis
  proof (cases "sink_playlist s")
    case None
    with run s have "st' = st" by (simp add: groove_sink_detach_def)
    with ok show ?thesis by simp
  next
    case (Some playlist)
    from run s Some obtain st1 st2 s2 where
      fl: "(if audioq s \<noteq> None
            then (case groove_queue_abort st sink of
                    Inl e \<Rightarrow> Inl e
                  | Inr st' \<Rightarrow> groove_queue_flush st' sink)
            else Inr st) = Inr st1"
      and rm: "remove_sink_from_map st1 sink = Inr (st2, r)"
      and s2: "sinks st2 sink = Some s2"
      and st': "st' = st2\<lparr>sinks := (sinks st2)(sink \<mapsto> s2\<lparr>sink_playlist := None\<rparr>)\<rparr>"
      by (auto simp: groove_sink_detach_def split: sum.splits option.splits)
    from detach_flush_owner [OF s fl] have 1: "playlists st1 = playlists st"
      "\<forall>k. map_option sink_playlist (sinks st1 k) = map_option sink_playlist (sinks st k)"
      by simp_all
    from attached_ok_cong [OF ok 1] have ok1: "attached_ok st1" .
    from 1(2) [rule_format, of sink] s Some obtain s1 where
      s1: "sinks st1 sink = Some s1" "sink_playlist s1 = Some playlist"
      by (cases "sinks st1 sink") auto
    from rm s1 obtain p where p: "playlists st1 playlist = Some p"
      by (auto simp: remove_sink_from_map_def split: option.splits)
    from ok1 p have d: "distinct (attached_sinks p)"
      and bk: "\<forall>k \<in> set (attached_sinks p). \<exists>s. sinks st1 k = Some s \<and> sink_playlist s = Some playlist"
      unfolding attached_ok_def by blast+
    from rm s1 p have sk: "sinks st2 = sinks st1"
      and others: "\<forall>q. q \<noteq> playlist \<longrightarrow> playlists st2 q = playlists st1 q"
      by (auto simp: remove_sink_from_map_def split: option.splits)
    have "\<exists>p2. playlists st2 playlist = Some p2 \<and> distinct (attached_sinks p2) \<and>
        set (attached_sinks p2) \<subseteq> set (attached_sinks p) \<and> sink \<notin> set (attached_sinks p2)"
    proof (cases "remove_from_map sink (sink_map p)")
      case None
      with rm s1 p have "st2 = st1" by (simp add: remove_sink_from_map_def)
      with p d remove_from_map_none [OF None] show ?thesis by (simp add: attached_sinks_def)
    next
      case (Some res)
      obtain m deleted where res: "res = (m, deleted)" by (cases res)
      from remove_from_map_split [OF Some [unfolded res]] obtain a b where
        ab: "attached_sinks p = a @ sink # b" "concat (map stack_head m) = a @ b"
        by (auto simp: attached_sinks_def)
      from rm s1 p Some res obtain p2 where p2: "playlists st2 playlist = Some p2" "sink_map p2 = m"
        by (auto simp: remove_sink_from_map_def)
      with ab have "attached_sinks p2 = a @ b" by (simp add: attached_sinks_def)
      with ab(1) d p2(1) show ?thesis by auto
    qed
    then obtain p2 where p2: "playlists st2 playlist = Some p2" "distinct (attached_sinks p2)"
      "set (attached_sinks p2) \<subseteq> set (attached_sinks p)" "sink \<notin> set (attached_sinks p2)"
      by blast
    show ?thesis
      unfolding attached_ok_def
    proof (intro allI impI)
      fix pl0 q assume q: "playlists st' pl0 = Some q"
      with st' have q2: "playlists st2 pl0 = Some q" by simp
      show "distinct (attached_sinks q) \<and>
          (\<forall>k \<in> set (attached_sinks q). \<exists>s. sinks st' k = Some s \<and> sink_playlist s = Some pl0)"
      proof (cases "pl0 = playlist")
        case True
        with q2 p2 have qq: "q = p2" by simp
        have "\<exists>s. sinks st' k = Some s \<and> sink_playlist s = Some playlist"
          if "k \<in> set (attached_sinks p2)" for k
        proof -
          from that p2 have "k \<noteq> sink" "k \<in> set (attached_sinks p)" by auto
          with bk sk st' show ?thesis by simp
        qed
        with p2(2) qq True show ?thesis by blast
      next
        case False
        with q2 others have q1: "playlists st1 pl0 = Some q" by simp
        with ok1 have d0: "distinct (attached_sinks q)"
          and bk0: "\<forall>k \<in> set (attached_sinks q). \<exists>s. sinks st1 k = Some s \<and> sink_playlist s = Some pl0"
          unfolding attached_ok_def by blast+
        have "\<exists>s. sinks st' k = Some s \<and> sink_playlist s = Some pl0"
          if "k \<in> set (attached_sinks q)" for k
        proof -
          from bk0 that obtain s0 where s0: "sinks st1 k = Some s0" "sink_playlist s0 = Some pl0"
            by blast
          with s1 False have "k \<noteq> sink" by auto
          with s0 sk st' show ?thesis by simp
        qed
        with d0 show ?thesis by blast
      qed
    qed
  qed
qed

text \<open>So does \<open>groove_playlist_remove\<close>, and so does \<open>groove_playlist_insert\<close>.\<close>

lemma groove_playlist_remove_ok:
  assumes ok: "attached_ok st" and run: "groove_playlist_remove st playlist item = Inr st'"
  shows "attached_ok st'"
proof -
  from run obtain st1 st2 st3 st4 st5 r st6 where
    steps: "skip_decode_head st playlist item = Inr st1"
      "unlink_prev st1 playlist item = Inr st2"
      "unlink_next st2 playlist item = Inr st3"
      "set_purge_item st3 playlist (Some item) = Inr st4"
      "every_sink st4 playlist purge_sink 0 = Inr (st5, r)"
      "set_purge_item st5 playlist None = Inr st6"
      "st' = av_free_item st6 item"
    by (auto simp: groove_playlist_remove_def split: sum.splits)
  from steps(1) obtain p where p: "playlists st playlist = Some p"
    by (auto simp: skip_decode_head_def split: option.splits)
  from remove_prepare [OF p steps(1-4)] obtain p4 where
    st4: "sinks st4 = sinks st" "buffers st4 = buffers st" "playlists st4 playlist = Some p4"
      "sink_map p4 = sink_map p" "purge_item p4 = Some item"
    by auto
  have o1: "\<forall>q. q \<noteq> playlist \<longrightarrow> playlists st1 q = playlists st q"
    using steps(1) by (auto simp: skip_decode_head_def split: option.splits if_splits)
  have o2: "\<forall>q. q \<noteq> playlist \<longrightarrow> playlists st2 q = playlists st1 q"
    using steps(2) by (auto simp: unlink_prev_def split: option.splits if_splits)
  have o3: "\<forall>q. q \<noteq> playlist \<longrightarrow> playlists st3 q = playlists st2 q"
    using steps(3) by (auto simp: unlink_next_def split: option.splits if_splits)
  have o4: "\<forall>q. q \<noteq> playlist \<longrightarrow> playlists st4 q = playlists st3 q"
    using steps(4) by (auto simp: set_purge_item_def split: option.splits if_splits)
  from attached_ok_back [OF ok p] st4
  have pre: "\<forall>k \<in> set (concat (map stack_head (sink_map p4))). purging playlist item st4 k"
    by (simp add: purging_def attached_sinks_def)
  from steps(5) st4 have "every_sink_map purge_sink 0 st4 (sink_map p4) = Inr (st5, r)"
    by (simp add: every_sink_def)
  from every_sink_map_purge [OF pre this] have f: "purge_frame item st4 st5" by simp
  then have 5: "playlists st5 = playlists st4"
    and rel: "\<forall>k. rel_option sink_rel (sinks st4 k) (sinks st5 k)"
    by (simp_all add: purge_frame_def)
  from steps(6,7) 5 st4(3) have 6: "sinks st' = sinks st5"
    "playlists st' = (playlists st4)(playlist \<mapsto> p4\<lparr>purge_item := None\<rparr>)"
    by (auto simp: set_purge_item_def av_free_item_def split: option.splits)
  have own: "map_option sink_playlist (sinks st' k) = map_option sink_playlist (sinks st k)" for k
    using rel [rule_format, of k] 6(1) st4(1)
    by (cases "sinks st k"; cases "sinks st5 k") (auto simp: sink_rel_def)
  show ?thesis
    unfolding attached_ok_def
  proof (intro allI impI)
    fix pl0 q assume q: "playlists st' pl0 = Some q"
    have "\<exists>q0. playlists st pl0 = Some q0 \<and> attached_sinks q = attached_sinks q0"
    proof (cases "pl0 = playlist")
      case True
      with q 6(2) have "q = p4\<lparr>purge_item := None\<rparr>" by simp
      with p st4(4) True show ?thesis by (simp add: attached_sinks_def)
    next
      case False
      with q 6(2) o1 o2 o3 o4 show ?thesis by simp
    qed
    then obtain q0 where q0: "playlists st pl0 = Some q0" "attached_sinks q = attached_sinks q0"
      by blast
    from ok q0(1) have d: "distinct (attached_sinks q0)"
      and bk: "\<forall>k \<in> set (attached_sinks q0). \<exists>s. sinks st k = Some s \<and> sink_playlist s = Some pl0"
      unfolding attached_ok_def by blast+
    have "\<exists>s. sinks st' k = Some s \<and> sink_playlist s = Some pl0" if "k \<in> set (attached_sinks q0)" for k
    proof -
      from bk that obtain s0 where "sinks st k = Some s0" "sink_playlist s0 = Some pl0" by blast
      with own [of k] show ?thesis by (cases "sinks st' k") auto
    qed
    with d q0(2) show "distinct (attached_sinks q) \<and>
        (\<forall>k \<in> set (attached_sinks q). \<exists>s. sinks st' k = Some s \<and> sink_playlist s = Some pl0)"
      by simp
  qed
qed

lemma groove_playlist_insert_ok:
  assumes ok: "attached_ok st"
    and run: "groove_playlist_insert st playlist file gain next_item new_item = Inr (st', r)"
  shows "attached_ok st'"
proof -
  from run have "sinks st' = sinks st \<and>
      (\<forall>q. map_option attached_sinks (playlists st' q) = map_option attached_sinks (playlists st q))"
    by (auto simp: groove_playlist_insert_def Let_def set_item_prev_def set_item_next_def
        seek_to_start_def attached_sinks_def split: option.splits sum.splits)
  then have sk: "sinks st' = sinks st"
    and at: "\<forall>q. map_option attached_sinks (playlists st' q) = map_option attached_sinks (playlists st q)"
    by simp_all
  show ?thesis
    unfolding attached_ok_def
  proof (intro allI impI)
    fix pl0 q assume q: "playlists st' pl0 = Some q"
    with at [rule_format, of pl0] obtain q0 where
      q0: "playlists st pl0 = Some q0" "attached_sinks q = attached_sinks q0"
      by (cases "playlists st pl0") auto
    with ok sk show "distinct (attached_sinks q) \<and>
        (\<forall>k \<in> set (attached_sinks q). \<exists>s. sinks st' k = Some s \<and> sink_playlist s = Some pl0)"
      unfolding attached_ok_def by simp
  qed
qed

subsection \<open>The guarantee of \<open>groove_playlist_remove\<close>\<close>

lemma ex_remove_runs:
  "\<exists>st'. groove_playlist_remove ex_remove_state 0 1 = Inr st' \<and>
     map_option (map_option q_elems \<circ> audioq) (sinks st' 5) = Some (Some [None, Some 11]) \<and>
     buffers st' 10 = None \<and> purge_calls st' = [(5, Some 1)] \<and>
     map_option head (playlists st' 0) = Some (Some 2)"
  by (simp add: groove_playlist_remove_def skip_decode_head_def unlink_prev_def unlink_next_def
      set_purge_item_def every_sink_def purge_sink_def groove_queue_purge_def set_q_elems_def
      audioq_purge_def audioq_cleanup_def groove_buffer_unref_def av_free_item_def
      ex_remove_state_def ex_item_def ex_sink_def ex_playlist_def ex_buffer_def ex_group_def)

lemma ex_remove_state_ok: "queues_ok ex_remove_state 0"
  by (simp add: queues_ok_def sinks_ok_def queue_refs_def queue_of_def attached_sinks_def
      ex_remove_state_def ex_playlist_def ex_group_def ex_sink_def ex_buffer_def)



text \<open>
  C1 fails as stated when a sink is attached to a second playlist without being detached
  from the first: both calls of \<open>groove_sink_attach\<close> return 0, the sink is still in the
  first playlist's map, and its \<open>playlist\<close> is the second. Removing item 1 from the first
  playlist then returns with the buffer of item 1 still in the sink's queue:
  \<open>audioq_purge\<close> compares with the \<open>purge_item\<close> of the second playlist, which is null.
\<close>

theorem remove_after_second_attach_keeps_buffer:
  "returned ex_attach_first = Some 0 \<and> returned ex_put_buffer = Some 0 \<and>
   returned ex_attach_second = Some 0 \<and> returned ex_remove_after = Some () \<and>
   attached_after ex_remove_after 0 = Some [5] \<and>
   left_in_queue ex_remove_after 5 1 = Some [Some 10]"
  by (simp add: returned_def attached_after_def left_in_queue_def and_then_def no_value_def
      ex_remove_after_def ex_attach_second_def ex_put_buffer_def ex_attach_first_def
      groove_sink_attach_def add_sink_to_map_def groove_queue_reset_def set_q_abort_def
      groove_queue_put_def audioq_put_def
      groove_playlist_remove_def skip_decode_head_def unlink_prev_def unlink_next_def
      set_purge_item_def every_sink_def purge_sink_def groove_queue_purge_def set_q_elems_def
      audioq_purge_def audioq_cleanup_def groove_buffer_unref_def av_free_item_def
      holds_item_def queue_of_def attached_sinks_def
      ex_two_playlists_def ex_sink_def ex_playlist_def ex_group_def ex_item_def ex_buffer_def)

subsection \<open>Inserting an item\<close>

lemma chain_cong: "\<forall>a \<in> set xs. h' a = h a \<Longrightarrow> chain h' pr xs = chain h pr xs"
  by (induction xs arbitrary: pr) (auto split: option.splits)

lemma chain_live: "chain h pr xs \<Longrightarrow> a \<in> set xs \<Longrightarrow> h a \<noteq> None"
  by (induction xs arbitrary: pr) (auto split: option.splits)

text \<open>
  C2. The claim fails on the code when \<open>next\<close> is the current head: lines 950-957 make the
  new item the head but leave \<open>next->prev\<close> null (the branch for \<open>next->prev\<close> non-null
  does set it). Playlist 0 holds item 1 alone and is well formed; inserting the fresh item
  2 before item 1 returns item 2, which is the new head with \<open>next\<close> item 1, while item 1,
  now not the head, still has a null \<open>prev\<close>. No list of items makes the result well
  formed.
\<close>

theorem insert_before_head_breaks_list:
  "dll ex_single_state 0 [1] \<and>
   (\<exists>st'. groove_playlist_insert ex_single_state 0 (Some 0) (dbl 1 0) (Some 1) (Some 2) = Inr (st', Some 2) \<and>
      map_option head (playlists st' 0) = Some (Some 2) \<and>
      map_option item_next (items st' 2) = Some (Some 1) \<and>
      map_option item_prev (items st' 1) = Some None \<and>
      (\<forall>xs. \<not> dll st' 0 xs))"
proof -
  let ?st' = "ex_single_state\<lparr>
      items := [1 \<mapsto> ex_item None None, 2 \<mapsto> ex_item None (Some 1)],
      playlists := [0 \<mapsto> ex_playlist (Some 2) (Some 1) (Some 1) []]\<rparr>"
  have run: "groove_playlist_insert ex_single_state 0 (Some 0) (dbl 1 0) (Some 1) (Some 2) = Inr (?st', Some 2)"
    by (simp add: groove_playlist_insert_def ex_single_state_def ex_item_def ex_playlist_def)
  have wf: "dll ex_single_state 0 [1]"
    by (simp add: dll_def ex_single_state_def ex_item_def ex_playlist_def)
  have bad: "\<not> dll ?st' 0 xs" for xs
  proof (cases xs)
    case Nil
    then show ?thesis by (simp add: dll_def ex_single_state_def ex_playlist_def)
  next
    case (Cons x ys)
    show ?thesis
    proof (cases ys)
      case Nil
      with Cons show ?thesis
        by (auto simp: dll_def ex_single_state_def ex_playlist_def ex_item_def)
    next
      case (Cons y zs)
      with \<open>xs = x # ys\<close> show ?thesis
        by (auto simp: dll_def ex_single_state_def ex_playlist_def ex_item_def split: option.splits)
    qed
  qed
  have "map_option head (playlists ?st' 0) = Some (Some 2)"
    "map_option item_next (items ?st' 2) = Some (Some 1)"
    "map_option item_prev (items ?st' 1) = Some None"
    by (simp_all add: ex_playlist_def ex_item_def)
  with run wf bad show ?thesis by blast
qed

lemma dll_fresh:
  assumes "dll st playlist xs" and "items st item = None"
  shows "item \<notin> set xs"
  using assms chain_live [of "items st" None xs item]
  by (auto simp: dll_def split: option.splits)

text \<open>Into the empty playlist.\<close>

lemma insert_into_empty_keeps_dll:
  assumes "dll st playlist []" and "file = Some fa" and "files st fa \<noteq> None"
  shows "\<exists>st'. groove_playlist_insert st playlist file gain None (Some item) = Inr (st', Some item) \<and>
           dll st' playlist [item]"
  using assms
  by (auto simp: dll_def groove_playlist_insert_def seek_to_start_def Let_def split: option.splits)

lemma chain_append_item:
  assumes "chain h pr xs" and "xs \<noteq> []" and "distinct xs" and "item \<notin> set xs"
    and "h (last xs) = Some t"
  shows "chain (h(item \<mapsto> \<lparr>item_file = f, item_gain = g, item_prev = Some (last xs), item_next = None\<rparr>,
                  last xs \<mapsto> t\<lparr>item_next := Some item\<rparr>))
           pr (xs @ [item])"
  using assms
proof (induction xs arbitrary: pr)
  case Nil
  then show ?case by simp
next
  case (Cons x xs)
  let ?l = "last (x # xs)"
  let ?h = "h(item \<mapsto> \<lparr>item_file = f, item_gain = g, item_prev = Some ?l, item_next = None\<rparr>,
              ?l \<mapsto> t\<lparr>item_next := Some item\<rparr>)"
  from Cons.prems obtain xit where x: "h x = Some xit" "item_prev xit = pr"
      "item_next xit = (case xs of [] \<Rightarrow> None | y # _ \<Rightarrow> Some y)" and rest: "chain h (Some x) xs"
    by (auto split: option.splits)
  from Cons.prems have ne: "item \<noteq> x" "item \<notin> set xs" "x \<notin> set xs" "distinct xs" by auto
  show ?case
  proof (cases xs)
    case Nil
    with x Cons.prems(5) have "t = xit" by simp
    with Nil x ne have hx: "?h x = Some (xit\<lparr>item_next := Some item\<rparr>)"
      and hi: "?h item = Some \<lparr>item_file = f, item_gain = g, item_prev = Some x, item_next = None\<rparr>"
      by auto
    from Nil hx hi x show ?thesis
      by (simp del: fun_upd_apply)
  next
    case (Cons y ys)
    then have l: "?l = last xs" "xs \<noteq> []" by simp_all
    with ne have "?l \<noteq> x" by (metis last_in_set)
    with ne have hx: "?h x = Some xit" using x by simp
    from Cons.prems(5) l have "h (last xs) = Some t" by simp
    then have "chain ?h (Some x) (xs @ [item])"
      unfolding l(1) by (rule Cons.IH [OF rest l(2) ne(4,2)])
    with hx x Cons show ?thesis
      by (simp del: fun_upd_apply)
  qed
qed

text \<open>At the end of a playlist that has items.\<close>

lemma insert_at_end_keeps_dll:
  assumes "dll st playlist xs" and "xs \<noteq> []" and "items st item = None"
  shows "\<exists>st'. groove_playlist_insert st playlist file gain None (Some item) = Inr (st', Some item) \<and>
           dll st' playlist (xs @ [item])"
proof -
  from assms(1,2) obtain p where p: "playlists st playlist = Some p" "head p = Some (hd xs)"
      "tail p = Some (last xs)" and d: "distinct xs" and c: "chain (items st) None xs"
    by (cases xs) (auto simp: dll_def split: option.splits)
  from dll_fresh [OF assms(1,3)] have fresh: "item \<notin> set xs" .
  from assms(2) have "last xs \<in> set xs" by simp
  with chain_live [OF c] obtain t where t: "items st (last xs) = Some t" by auto
  from fresh \<open>last xs \<in> set xs\<close> have ne: "last xs \<noteq> item" by auto
  let ?h = "(items st)(item \<mapsto> \<lparr>item_file = file, item_gain = gain, item_prev = Some (last xs), item_next = None\<rparr>,
                  last xs \<mapsto> t\<lparr>item_next := Some item\<rparr>)"
  let ?st' = "st\<lparr>items := ?h, playlists := (playlists st)(playlist \<mapsto> p\<lparr>tail := Some item\<rparr>)\<rparr>"
  from p t ne have run: "groove_playlist_insert st playlist file gain None (Some item) = Inr (?st', Some item)"
    by (simp add: groove_playlist_insert_def set_item_prev_def set_item_next_def Let_def)
  from chain_append_item [OF c assms(2) d fresh t] have "chain ?h None (xs @ [item])" .
  with p d fresh assms(2) have "dll ?st' playlist (xs @ [item])"
    by (cases xs) (auto simp: dll_def)
  with run show ?thesis by blast
qed

lemma chain_insert_item:
  assumes "chain h pr (ys @ a # n # zs)" and "distinct (ys @ a # n # zs)"
    and "item \<notin> set (ys @ a # n # zs)" and "h a = Some ait" and "h n = Some nit"
  shows "chain (h(item \<mapsto> \<lparr>item_file = f, item_gain = g, item_prev = Some a, item_next = Some n\<rparr>,
                  a \<mapsto> ait\<lparr>item_next := Some item\<rparr>,
                  n \<mapsto> nit\<lparr>item_prev := Some item\<rparr>))
           pr (ys @ a # item # n # zs)"
  using assms
proof (induction ys arbitrary: pr)
  case Nil
  let ?h = "h(item \<mapsto> \<lparr>item_file = f, item_gain = g, item_prev = Some a, item_next = Some n\<rparr>,
                  a \<mapsto> ait\<lparr>item_next := Some item\<rparr>,
                  n \<mapsto> nit\<lparr>item_prev := Some item\<rparr>)"
  from Nil.prems have old: "item_prev ait = pr" "item_prev nit = Some a"
      "item_next nit = (case zs of [] \<Rightarrow> None | y # _ \<Rightarrow> Some y)" "chain h (Some n) zs"
    by (auto split: option.splits)
  from Nil.prems have ne: "a \<noteq> n" "item \<noteq> a" "item \<noteq> n" by auto
  from Nil.prems have "chain ?h (Some n) zs = chain h (Some n) zs"
    by (intro chain_cong) auto
  with old have tl: "chain ?h (Some n) zs" by simp
  from ne have ha: "?h a = Some (ait\<lparr>item_next := Some item\<rparr>)"
    and hi: "?h item = Some \<lparr>item_file = f, item_gain = g, item_prev = Some a, item_next = Some n\<rparr>"
    and hn: "?h n = Some (nit\<lparr>item_prev := Some item\<rparr>)"
    by auto
  from ha hi hn tl old show ?case
    by (simp del: fun_upd_apply)
next
  case (Cons y ys)
  let ?h = "h(item \<mapsto> \<lparr>item_file = f, item_gain = g, item_prev = Some a, item_next = Some n\<rparr>,
                  a \<mapsto> ait\<lparr>item_next := Some item\<rparr>,
                  n \<mapsto> nit\<lparr>item_prev := Some item\<rparr>)"
  from Cons.prems obtain yit where y: "h y = Some yit" "item_prev yit = pr"
      "item_next yit = (case ys @ a # n # zs of [] \<Rightarrow> None | z # _ \<Rightarrow> Some z)"
    and rest: "chain h (Some y) (ys @ a # n # zs)" "distinct (ys @ a # n # zs)"
      "item \<notin> set (ys @ a # n # zs)"
    by (auto split: option.splits)
  from Cons.prems have "y \<noteq> item" "y \<noteq> a" "y \<noteq> n" by auto
  with y have hy: "?h y = Some yit" by simp
  have nx: "(case ys @ a # item # n # zs of [] \<Rightarrow> None | z # _ \<Rightarrow> Some z) =
      (case ys @ a # n # zs of [] \<Rightarrow> None | z # _ \<Rightarrow> Some z)"
    by (cases ys) simp_all
  from Cons.IH [OF rest Cons.prems(4,5)] hy y nx show ?case
    by (simp del: fun_upd_apply)
qed

lemma chain_prev_of:
  "chain h pr (ys @ a # n # zs) \<Longrightarrow> \<exists>nit. h n = Some nit \<and> item_prev nit = Some a"
  by (induction ys arbitrary: pr) (auto split: option.splits)

text \<open>Before an item of the playlist that is not its head.\<close>

lemma insert_before_inner_keeps_dll:
  assumes "dll st playlist (ys @ a # n # zs)" and "items st item = None"
  shows "\<exists>st'. groove_playlist_insert st playlist file gain (Some n) (Some item) = Inr (st', Some item) \<and>
           dll st' playlist (ys @ a # item # n # zs)"
proof -
  let ?xs = "ys @ a # n # zs"
  from assms(1) obtain p where p: "playlists st playlist = Some p" "head p = Some (hd ?xs)"
      "tail p = Some (last ?xs)" and d: "distinct ?xs" and c: "chain (items st) None ?xs"
    by (cases ?xs) (auto simp: dll_def split: option.splits)
  from dll_fresh [OF assms] have fresh: "item \<notin> set ?xs" .
  from chain_live [OF c, of a] obtain ait where a: "items st a = Some ait" by auto
  from chain_prev_of [OF c] have "\<exists>nit. items st n = Some nit \<and> item_prev nit = Some a" .
  then obtain nit where n: "items st n = Some nit" "item_prev nit = Some a" by blast
  from fresh d have ne: "n \<noteq> item" "a \<noteq> item" "a \<noteq> n" by auto
  let ?h = "(items st)(item \<mapsto> \<lparr>item_file = file, item_gain = gain, item_prev = Some a, item_next = Some n\<rparr>,
                  a \<mapsto> ait\<lparr>item_next := Some item\<rparr>,
                  n \<mapsto> nit\<lparr>item_prev := Some item\<rparr>)"
  let ?st' = "st\<lparr>items := ?h\<rparr>"
  from p a n ne have run: "groove_playlist_insert st playlist file gain (Some n) (Some item) = Inr (?st', Some item)"
    by (simp add: groove_playlist_insert_def set_item_prev_def set_item_next_def Let_def)
  from chain_insert_item [OF c d fresh a n(1)] have "chain ?h None (ys @ a # item # n # zs)" .
  with p d fresh have "dll ?st' playlist (ys @ a # item # n # zs)"
    by (cases ys) (auto simp: dll_def)
  with run show ?thesis by blast
qed

subsection \<open>Clearing the playlist\<close>

lemma list_frame_refl: "list_frame st st"
  by (simp add: list_frame_def)

lemma list_frame_trans: "list_frame a b \<Longrightarrow> list_frame b c \<Longrightarrow> list_frame a c"
  by (simp add: list_frame_def)

lemma audioq_cleanup_list_frame: "audioq_cleanup st ctx obj = Inr st' \<Longrightarrow> list_frame st st'"
  by (auto simp: audioq_cleanup_def groove_buffer_unref_def list_frame_def
      split: option.splits if_splits)

lemma purge_elems_list_frame: "purge_elems st ctx xs = Inr (st', kept) \<Longrightarrow> list_frame st st'"
proof (induction xs arbitrary: st kept)
  case Nil
  then show ?case by (simp add: list_frame_refl)
next
  case (Cons obj rest)
  from Cons.prems obtain r where r: "audioq_purge st ctx obj = Inr r"
    by (auto split: sum.splits)
  show ?case
  proof (cases "r = 0")
    case True
    with Cons.prems r obtain kept' where "purge_elems st ctx rest = Inr (st', kept')"
      by (auto split: sum.splits)
    then show ?thesis by (rule Cons.IH)
  next
    case False
    with Cons.prems r obtain st1 where c: "audioq_cleanup st ctx obj = Inr st1"
      and p: "purge_elems st1 ctx rest = Inr (st', kept)"
      by (auto split: sum.splits)
    from audioq_cleanup_list_frame [OF c] Cons.IH [OF p] show ?thesis
      by (rule list_frame_trans)
  qed
qed

lemma set_q_elems_list_frame: "set_q_elems st ctx elems = Inr st' \<Longrightarrow> list_frame st st'"
  by (auto simp: set_q_elems_def list_frame_def split: option.splits)

lemma groove_queue_purge_list_frame: "groove_queue_purge st ctx = Inr st' \<Longrightarrow> list_frame st st'"
  by (auto simp: groove_queue_purge_def split: option.splits sum.splits
      dest!: purge_elems_list_frame set_q_elems_list_frame intro: list_frame_trans)

lemma purge_sink_list_frame: "purge_sink st k = Inr (st', v) \<Longrightarrow> v = 0 \<and> list_frame st st'"
  by (auto simp: purge_sink_def split: sum.splits option.splits if_splits
      dest!: groove_queue_purge_list_frame simp: list_frame_def)

lemma every_sink_stack_list_frame:
  "every_sink_stack purge_sink 0 st ks = Inr (st', r) \<Longrightarrow> r = None \<and> list_frame st st'"
proof (induction ks arbitrary: st)
  case Nil
  then show ?case by (simp add: list_frame_refl)
next
  case (Cons k ks)
  from Cons.prems obtain st1 v where ps: "purge_sink st k = Inr (st1, v)"
    by (auto split: sum.splits)
  from purge_sink_list_frame [OF ps] have 1: "v = 0" "list_frame st st1" by auto
  with Cons.prems ps have "every_sink_stack purge_sink 0 st1 ks = Inr (st', r)" by simp
  from Cons.IH [OF this] 1 show ?case by (auto intro: list_frame_trans)
qed

lemma every_sink_map_list_frame:
  "every_sink_map purge_sink 0 st ms = Inr (st', r) \<Longrightarrow> list_frame st st'"
proof (induction ms arbitrary: st)
  case Nil
  then show ?case by (simp add: list_frame_refl)
next
  case (Cons m ms)
  from Cons.prems obtain st1 r1 where es: "every_sink_stack purge_sink 0 st (stack_head m) = Inr (st1, r1)"
    by (auto split: sum.splits)
  from every_sink_stack_list_frame [OF es] have 1: "r1 = None" "list_frame st st1" by auto
  with Cons.prems es have "every_sink_map purge_sink 0 st1 ms = Inr (st', r)" by simp
  from Cons.IH [OF this] 1 show ?case by (auto intro: list_frame_trans)
qed

text \<open>Removing the head of a well-formed list leaves the rest well formed.\<close>

lemma remove_head_dll:
  assumes "dll st playlist (x # xs)" and "groove_playlist_remove st playlist x = Inr st'"
  shows "dll st' playlist xs \<and> free_log st' = free_log st @ [x]"
proof -
  from assms(1) obtain p it where p: "playlists st playlist = Some p" "head p = Some x"
      "tail p = Some (last (x # xs))"
    and it: "items st x = Some it" "item_prev it = None"
      "item_next it = (case xs of [] \<Rightarrow> None | y # _ \<Rightarrow> Some y)"
    and d: "x \<notin> set xs" "distinct xs" and c: "chain (items st) (Some x) xs"
    by (auto simp: dll_def split: option.splits)
  from assms(2) obtain st1 st2 st3 st4 st5 r st6 where
    steps: "skip_decode_head st playlist x = Inr st1"
      "unlink_prev st1 playlist x = Inr st2"
      "unlink_next st2 playlist x = Inr st3"
      "set_purge_item st3 playlist (Some x) = Inr st4"
      "every_sink st4 playlist purge_sink 0 = Inr (st5, r)"
      "set_purge_item st5 playlist None = Inr st6"
      "st' = av_free_item st6 x"
    by (auto simp: groove_playlist_remove_def split: sum.splits)
  from steps(1) p it obtain p1 where 1: "items st1 = items st" "free_log st1 = free_log st"
      "playlists st1 playlist = Some p1" "head p1 = Some x" "tail p1 = Some (last (x # xs))"
    by (auto simp: skip_decode_head_def split: if_splits)
  from steps(2) 1 it obtain p2 where 2: "items st2 = items st" "free_log st2 = free_log st"
      "playlists st2 playlist = Some p2" "head p2 = item_next it" "tail p2 = Some (last (x # xs))"
    by (auto simp: unlink_prev_def)
  have 3: "\<exists>p3. free_log st3 = free_log st \<and> playlists st3 playlist = Some p3 \<and>
      head p3 = item_next it \<and> tail p3 = (if xs = [] then None else Some (last xs)) \<and>
      chain (items st3) None xs"
  proof (cases xs)
    case Nil
    with steps(3) 2 it show ?thesis
      by (auto simp: unlink_next_def)
  next
    case (Cons y ys)
    with c obtain yit where y: "items st y = Some yit" "item_prev yit = Some x"
        "item_next yit = (case ys of [] \<Rightarrow> None | z # _ \<Rightarrow> Some z)"
        "chain (items st) (Some y) ys"
      by (auto split: option.splits)
    from steps(3) 2 it y Cons have st3: "st3 = st2\<lparr>items := (items st)(y \<mapsto> yit\<lparr>item_prev := None\<rparr>)\<rparr>"
      by (auto simp: unlink_next_def)
    from d Cons have "y \<notin> set ys" by simp
    then have "chain ((items st)(y \<mapsto> yit\<lparr>item_prev := None\<rparr>)) (Some y) ys = chain (items st) (Some y) ys"
      by (intro chain_cong) auto
    with y st3 2 Cons show ?thesis by simp
  qed
  then obtain p3 where 3: "free_log st3 = free_log st" "playlists st3 playlist = Some p3"
      "head p3 = item_next it" "tail p3 = (if xs = [] then None else Some (last xs))"
      "chain (items st3) None xs"
    by blast
  from steps(4) 3 obtain p4 where 4: "free_log st4 = free_log st" "playlists st4 playlist = Some p4"
      "head p4 = item_next it" "tail p4 = (if xs = [] then None else Some (last xs))"
      "items st4 = items st3"
    by (auto simp: set_purge_item_def)
  from steps(5) 4 have "every_sink_map purge_sink 0 st4 (sink_map p4) = Inr (st5, r)"
    by (simp add: every_sink_def)
  from every_sink_map_list_frame [OF this] have "list_frame st4 st5" .
  with 4 have 5: "free_log st5 = free_log st" "playlists st5 playlist = Some p4" "items st5 = items st3"
    by (simp_all add: list_frame_def)
  with steps(6) 4 obtain p6 where 6: "free_log st6 = free_log st" "playlists st6 playlist = Some p6"
      "head p6 = item_next it" "tail p6 = (if xs = [] then None else Some (last xs))"
      "items st6 = items st3"
    by (auto simp: set_purge_item_def)
  from d have "chain ((items st3)(x := None)) None xs = chain (items st3) None xs"
    by (intro chain_cong) auto
  with 6 3 steps(7) d it show ?thesis
    by (simp add: dll_def av_free_item_def)
qed

lemma clear_loop_eq:
  assumes "dll st playlist xs"
  shows "clear_loop st playlist (case xs of [] \<Rightarrow> None | x # _ \<Rightarrow> Some x) = clear_by_remove_head st playlist \<and>
         (\<exists>r. clear_by_remove_head st playlist = Some r \<and>
            (\<forall>st'. r = Inr st' \<longrightarrow> dll st' playlist [] \<and> free_log st' = free_log st @ xs))"
  using assms
proof (induction xs arbitrary: st)
  case Nil
  then obtain p where p: "playlists st playlist = Some p" "head p = None"
    by (auto simp: dll_def split: option.splits)
  have 1: "clear_loop st playlist None = Some (Inr st)"
    by (subst clear_loop.simps) simp
  have 2: "clear_by_remove_head st playlist = Some (Inr st)"
    by (subst clear_by_remove_head.simps) (simp add: p)
  from 1 2 Nil show ?case by simp
next
  case (Cons x xs)
  then obtain p it where p: "playlists st playlist = Some p" "head p = Some x"
    and it: "items st x = Some it" "item_next it = (case xs of [] \<Rightarrow> None | y # _ \<Rightarrow> Some y)"
    by (auto simp: dll_def split: option.splits)
  show ?case
  proof (cases "groove_playlist_remove st playlist x")
    case (Inl e)
    have 1: "clear_loop st playlist (Some x) = Some (Inl e)"
      by (subst clear_loop.simps) (simp add: it Inl)
    have 2: "clear_by_remove_head st playlist = Some (Inl e)"
      by (subst clear_by_remove_head.simps) (simp add: p Inl)
    from 1 2 show ?thesis by simp
  next
    case (Inr st1)
    from remove_head_dll [OF Cons.prems Inr] have d: "dll st1 playlist xs"
      and l: "free_log st1 = free_log st @ [x]" by auto
    have 1: "clear_loop st playlist (Some x) =
        clear_loop st1 playlist (case xs of [] \<Rightarrow> None | y # _ \<Rightarrow> Some y)"
      by (subst clear_loop.simps) (simp add: it Inr)
    have 2: "clear_by_remove_head st playlist = clear_by_remove_head st1 playlist"
      by (subst clear_by_remove_head.simps) (simp add: p Inr)
    from Cons.IH [OF d] 1 2 l show ?thesis by simp
  qed
qed

lemma groove_playlist_clear_eq:
  assumes "dll st playlist xs"
  shows "groove_playlist_clear st playlist = clear_by_remove_head st playlist \<and>
         (\<exists>r. groove_playlist_clear st playlist = Some r \<and>
            (\<forall>st'. r = Inr st' \<longrightarrow> dll st' playlist [] \<and> free_log st' = free_log st @ xs))"
proof -
  from assms obtain p where p: "playlists st playlist = Some p"
      "head p = (case xs of [] \<Rightarrow> None | x # _ \<Rightarrow> Some x)"
    by (auto simp: dll_def split: option.splits)
  have "groove_playlist_clear st playlist = clear_loop st playlist (case xs of [] \<Rightarrow> None | x # _ \<Rightarrow> Some x)"
  proof (cases xs)
    case Nil
    have "clear_loop st playlist None = Some (Inr st)"
      by (subst clear_loop.simps) simp
    with p Nil show ?thesis by (simp add: groove_playlist_clear_def)
  next
    case (Cons x ys)
    with p show ?thesis by (simp add: groove_playlist_clear_def)
  qed
  with clear_loop_eq [OF assms] show ?thesis by simp
qed

lemma clear_by_remove_head_total:
  assumes "dll st playlist xs" and "queues_ok st playlist"
  shows "\<exists>st'. clear_by_remove_head st playlist = Some (Inr st')"
  using assms
proof (induction xs arbitrary: st)
  case Nil
  then obtain p where "playlists st playlist = Some p" "head p = None"
    by (auto simp: dll_def split: option.splits)
  then have "clear_by_remove_head st playlist = Some (Inr st)"
    by (subst clear_by_remove_head.simps) simp
  then show ?case by simp
next
  case (Cons x xs)
  from Cons.prems(1) obtain p it where p: "playlists st playlist = Some p" "head p = Some x"
    and it: "items st x = Some it" "item_prev it = None"
      "item_next it = (case xs of [] \<Rightarrow> None | y # _ \<Rightarrow> Some y)"
    and c: "chain (items st) (Some x) xs"
    by (auto simp: dll_def split: option.splits)
  have nx: "\<forall>a. item_next it = Some a \<longrightarrow> items st a \<noteq> None"
  proof (cases xs)
    case Nil
    with it show ?thesis by simp
  next
    case (Cons y ys)
    with c have "items st y \<noteq> None" by (auto split: option.splits)
    with it Cons show ?thesis by simp
  qed
  from it have pr: "\<forall>a. item_prev it = Some a \<longrightarrow> items st a \<noteq> None" by simp
  from groove_playlist_remove_total [OF Cons.prems(2) it(1) pr nx] obtain st1 where
    r: "groove_playlist_remove st playlist x = Inr st1" and ok: "queues_ok st1 playlist"
    by blast
  from remove_head_dll [OF Cons.prems(1) r] have d: "dll st1 playlist xs" by simp
  have "clear_by_remove_head st playlist = clear_by_remove_head st1 playlist"
    by (subst clear_by_remove_head.simps) (simp add: p r)
  with Cons.IH [OF d ok] show ?case by simp
qed

lemma ex_clear_runs:
  "\<exists>st'. groove_playlist_clear ex_remove_state 0 = Some (Inr st') \<and> items st' = Map.empty \<and>
     map_option (map_option q_elems \<circ> audioq) (sinks st' 5) = Some (Some [None]) \<and>
     purge_calls st' = [(5, Some 1), (5, Some 2)]"
  by (simp add: groove_playlist_clear_def clear_loop.simps
      groove_playlist_remove_def skip_decode_head_def unlink_prev_def unlink_next_def
      set_purge_item_def every_sink_def purge_sink_def groove_queue_purge_def set_q_elems_def
      audioq_purge_def audioq_cleanup_def groove_buffer_unref_def av_free_item_def
      ex_remove_state_def ex_item_def ex_sink_def ex_playlist_def ex_buffer_def ex_group_def)

text \<open>
  C9. For a playlist whose items are the well-formed list \<open>xs\<close>, \<open>groove_playlist_clear\<close>
  gives the same result as removing the head until the playlist is empty. Both return;
  when no fault occurs on the way, the playlist is left empty and the items freed are
  \<open>xs\<close>, in this order. No fault occurs when the queues of the attached sinks are sound.
\<close>

theorem clear_equals_remove_head_until_empty:
  assumes "dll st playlist xs"
  shows "groove_playlist_clear st playlist = clear_by_remove_head st playlist \<and>
         (\<exists>r. groove_playlist_clear st playlist = Some r \<and>
            (\<forall>st'. r = Inr st' \<longrightarrow> dll st' playlist [] \<and> free_log st' = free_log st @ xs)) \<and>
         (queues_ok st playlist \<longrightarrow> (\<exists>st'. groove_playlist_clear st playlist = Some (Inr st')))"
proof -
  note eq = groove_playlist_clear_eq [OF assms]
  have "\<exists>st'. groove_playlist_clear st playlist = Some (Inr st')" if "queues_ok st playlist"
    using clear_by_remove_head_total [OF assms that] eq by simp
  with eq show ?thesis by blast
qed

theorem clear_equals_remove_head_until_empty_witness:
  "dll ex_remove_state 0 [1, 2] \<and> queues_ok ex_remove_state 0 \<and>
   groove_playlist_clear ex_remove_state 0 = clear_by_remove_head ex_remove_state 0 \<and>
   (\<exists>st'. groove_playlist_clear ex_remove_state 0 = Some (Inr st') \<and>
      dll st' 0 [] \<and> free_log st' = free_log ex_remove_state @ [1, 2])"
proof -
  have wf: "dll ex_remove_state 0 [1, 2]"
    by (simp add: dll_def ex_remove_state_def ex_playlist_def ex_item_def)
  note t = clear_equals_remove_head_until_empty [OF wf]
  from t ex_remove_state_ok obtain st' where
    r: "groove_playlist_clear ex_remove_state 0 = Some (Inr st')"
    by blast
  from t r
  have "groove_playlist_clear ex_remove_state 0 = clear_by_remove_head ex_remove_state 0"
    and "dll st' 0 [] \<and> free_log st' = free_log ex_remove_state @ [1, 2]"
    by simp_all
  with wf r ex_remove_state_ok show ?thesis by blast
qed

subsection \<open>The position\<close>

text \<open>
  C10. With a non-null \<open>seconds\<close> pointer: when \<open>decode_head\<close> is null, the cell of
  \<open>seconds\<close> keeps its content and a non-null \<open>item\<close> cell receives null; when
  \<open>decode_head\<close> is an item with a live file, the cell of \<open>seconds\<close> receives that file's
  audio clock.
\<close>

theorem position_seconds_only_with_decode_head:
  assumes "playlists st playlist = Some p"
  shows "(decode_head p = None \<longrightarrow>
            groove_playlist_position st playlist item (Some secs) =
              Inr (map_option (\<lambda>_. None) item, Some secs)) \<and>
         (\<forall>d it fa f. decode_head p = Some d \<and> items st d = Some it \<and> item_file it = Some fa \<and>
              files st fa = Some f \<longrightarrow>
            groove_playlist_position st playlist item (Some secs) =
              Inr (map_option (\<lambda>_. Some d) item, Some (audio_clock f)))"
  using assms by (cases item) (auto simp: groove_playlist_position_def)

theorem position_seconds_only_with_decode_head_witness:
  "groove_playlist_position (ex_single_state\<lparr>playlists := [0 \<mapsto> ex_playlist (Some 1) (Some 1) None []]\<rparr>)
       0 (Some (Some 7)) (Some (dbl 42 0)) = Inr (Some None, Some (dbl 42 0)) \<and>
   groove_playlist_position (ex_single_state\<lparr>files := [0 \<mapsto> ex_file\<lparr>audio_clock := dbl 3 0\<rparr>]\<rparr>)
       0 (Some None) (Some (dbl 42 0)) = Inr (Some (Some 1), Some (dbl 3 0))"
proof -
  let ?a = "ex_single_state\<lparr>playlists := [0 \<mapsto> ex_playlist (Some 1) (Some 1) None []]\<rparr>"
  let ?b = "ex_single_state\<lparr>files := [0 \<mapsto> ex_file\<lparr>audio_clock := dbl 3 0\<rparr>]\<rparr>"
  have a: "playlists ?a 0 = Some (ex_playlist (Some 1) (Some 1) None [])"
    by simp
  have b: "playlists ?b 0 = Some (ex_playlist (Some 1) (Some 1) (Some 1) [])"
    by (simp add: ex_single_state_def)
  have 1: "groove_playlist_position ?a 0 (Some (Some 7)) (Some (dbl 42 0)) = Inr (Some None, Some (dbl 42 0))"
    using position_seconds_only_with_decode_head [OF a, of "Some (Some 7)" "dbl 42 0"]
    by (simp add: ex_playlist_def)
  have 2: "groove_playlist_position ?b 0 (Some None) (Some (dbl 42 0)) = Inr (Some (Some 1), Some (dbl 3 0))"
    using position_seconds_only_with_decode_head [OF b, of "Some None" "dbl 42 0"]
    by (simp add: ex_playlist_def ex_single_state_def ex_item_def)
  from 1 2 show ?thesis by simp
qed

subsection \<open>Allocation failure in \<open>add_sink_to_map\<close>\<close>

text \<open>
  C8. When the allocation of the stack entry fails, \<open>add_sink_to_map\<close> dereferences the
  null pointer (the write \<open>stack_entry->sink = sink\<close> comes before the test), and no
  execution at all returns -1: neither of the two checked error returns can be taken.
\<close>

theorem add_sink_to_map_null_check_unreachable:
  "add_sink_to_map st playlist sink None map_entry = Inl Null_deref \<and>
   (\<forall>st'. add_sink_to_map st playlist sink stack_entry map_entry \<noteq> Inr (st', - 1))"
  by (auto simp: add_sink_to_map_def split: option.splits sum.splits)

subsection \<open>Grouping of the sinks\<close>

lemma same_format_key: "same_format a b \<longleftrightarrow> format_key a = format_key b"
  by (auto simp: same_format_def format_key_def)

lemma sink_formats_equal_same_format: "sink_formats_equal a b \<noteq> 0 \<longleftrightarrow> same_format a b"
  by (auto simp: sink_formats_equal_def same_format_def)

lemma push_matching_grouped:
  assumes "grouped st m ks" and "distinct ks" and "sinks st sink = Some s"
  shows "\<exists>r. push_matching st sink m = Inr r \<and>
     (case r of
        None \<Rightarrow> format_key s \<notin> set ks
      | Some m' \<Rightarrow> grouped st m' ks \<and> format_key s \<in> set ks \<and>
          (\<forall>a. (\<exists>g \<in> set m'. a \<in> set (stack_head g)) \<longleftrightarrow>
               a = sink \<or> (\<exists>g \<in> set m. a \<in> set (stack_head g))))"
  using assms
proof (induction m arbitrary: ks)
  case Nil
  then show ?case by (simp add: grouped_def)
next
  case (Cons g m)
  from Cons.prems(1) obtain k ks' where ks: "ks = k # ks'" and g: "stack_head g \<noteq> []"
      "\<forall>a \<in> set (stack_head g). \<exists>s. sinks st a = Some s \<and> format_key s = k"
    and rest: "grouped st m ks'"
    by (auto simp: grouped_def list_all2_Cons1)
  from g obtain e es where e: "stack_head g = e # es" by (cases "stack_head g") auto
  with g obtain se where se: "sinks st e = Some se" "format_key se = k" by auto
  show ?case
  proof (cases "format_key s = k")
    case True
    with se have "sink_formats_equal se s \<noteq> 0"
      by (simp add: sink_formats_equal_same_format same_format_key)
    with e se Cons.prems(3) have "push_matching st sink (g # m) =
        Inr (Some (g\<lparr>stack_head := sink # stack_head g\<rparr> # m))"
      by simp
    moreover have "grouped st (g\<lparr>stack_head := sink # stack_head g\<rparr> # m) ks"
      using g rest ks True Cons.prems(3) by (auto simp: grouped_def)
    ultimately show ?thesis using True ks by auto
  next
    case False
    with se have ne: "sink_formats_equal se s = 0"
      using sink_formats_equal_same_format [of se s] by (simp add: same_format_key)
    from Cons.prems(2) ks have "distinct ks'" by simp
    from Cons.IH [OF rest this Cons.prems(3)] obtain r where
      r: "push_matching st sink m = Inr r"
      and rr: "case r of
        None \<Rightarrow> format_key s \<notin> set ks'
      | Some m' \<Rightarrow> grouped st m' ks' \<and> format_key s \<in> set ks' \<and>
          (\<forall>a. (\<exists>g \<in> set m'. a \<in> set (stack_head g)) \<longleftrightarrow>
               a = sink \<or> (\<exists>g \<in> set m. a \<in> set (stack_head g)))"
      by blast
    show ?thesis
    proof (cases r)
      case None
      with r e se Cons.prems(3) ne have "push_matching st sink (g # m) = Inr None" by simp
      with None rr False ks show ?thesis by simp
    next
      case (Some m')
      with r e se Cons.prems(3) ne have "push_matching st sink (g # m) = Inr (Some (g # m'))"
        by simp
      moreover from Some rr g ks have "grouped st (g # m') ks"
        by (simp add: grouped_def)
      ultimately show ?thesis using Some rr ks by auto
    qed
  qed
qed

text \<open>One call keeps the map grouped with distinct keys, and adds exactly the sink.\<close>

lemma add_sink_to_map_grouped:
  assumes "playlists st playlist = Some p" and "grouped st (sink_map p) ks" and "distinct ks"
    and "sinks st sink = Some s"
    and "add_sink_to_map st playlist sink stack_entry map_entry = Inr (st', r)"
  shows "sinks st' = sinks st \<and>
     (\<exists>p' ks'. playlists st' playlist = Some p' \<and> grouped st' (sink_map p') ks' \<and> distinct ks' \<and>
        (\<forall>a. (\<exists>g \<in> set (sink_map p'). a \<in> set (stack_head g)) \<longleftrightarrow>
             a = sink \<or> (\<exists>g \<in> set (sink_map p). a \<in> set (stack_head g))))"
proof -
  from push_matching_grouped [OF assms(2,3,4)] obtain pm where
    pm: "push_matching st sink (sink_map p) = Inr pm"
    and pmr: "case pm of
        None \<Rightarrow> format_key s \<notin> set ks
      | Some m' \<Rightarrow> grouped st m' ks \<and> format_key s \<in> set ks \<and>
          (\<forall>a. (\<exists>g \<in> set m'. a \<in> set (stack_head g)) \<longleftrightarrow>
               a = sink \<or> (\<exists>g \<in> set (sink_map p). a \<in> set (stack_head g)))"
    by blast
  show ?thesis
  proof (cases pm)
    case None
    with assms(1,5) pm have st': "st' = st\<lparr>playlists := (playlists st)(playlist \<mapsto>
        p\<lparr>sink_map := \<lparr>stack_head = [sink], aformat_ctx = None, abuffersink_ctx = None\<rparr> # sink_map p,
          sink_map_count := sink_map_count p + 1\<rparr>)\<rparr>"
      by (auto simp: add_sink_to_map_def split: option.splits if_splits)
    have "grouped st' (\<lparr>stack_head = [sink], aformat_ctx = None, abuffersink_ctx = None\<rparr> # sink_map p)
        (format_key s # ks)"
      using assms(2,4) by (simp add: grouped_def st')
    moreover from None pmr assms(3) have "distinct (format_key s # ks)" by simp
    ultimately show ?thesis
      unfolding st' by (intro conjI exI [of _ "format_key s # ks"]) auto
  next
    case (Some m')
    with assms(1,5) pm have st': "st' = st\<lparr>playlists := (playlists st)(playlist \<mapsto> p\<lparr>sink_map := m'\<rparr>)\<rparr>"
      by (auto simp: add_sink_to_map_def split: option.splits if_splits)
    from Some pmr have "grouped st' m' ks"
      by (simp add: grouped_def st')
    with Some pmr assms(3) show ?thesis
      unfolding st' by (intro conjI exI [of _ ks]) auto
  qed
qed

lemma grouped_same_group:
  assumes "grouped st m ks" and "distinct ks"
    and "g \<in> set m" "a \<in> set (stack_head g)" "h \<in> set m" "b \<in> set (stack_head h)"
    and "sinks st a = Some sa" "sinks st b = Some sb"
  shows "(\<exists>g \<in> set m. a \<in> set (stack_head g) \<and> b \<in> set (stack_head g)) \<longleftrightarrow> format_key sa = format_key sb"
proof -
  from assms(3) obtain i where i: "i < length m" "m ! i = g" by (auto simp: in_set_conv_nth)
  from assms(5) obtain j where j: "j < length m" "m ! j = h" by (auto simp: in_set_conv_nth)
  from assms(1) have len: "length m = length ks"
    and all: "\<And>n. n < length m \<Longrightarrow> \<forall>a \<in> set (stack_head (m ! n)). \<exists>s. sinks st a = Some s \<and> format_key s = ks ! n"
    by (auto simp: grouped_def list_all2_conv_all_nth)
  from all [OF i(1)] i assms(4,7) have ka: "format_key sa = ks ! i" by force
  from all [OF j(1)] j assms(6,8) have kb: "format_key sb = ks ! j" by force
  show ?thesis
  proof
    assume "\<exists>g \<in> set m. a \<in> set (stack_head g) \<and> b \<in> set (stack_head g)"
    then obtain g' where g': "g' \<in> set m" "a \<in> set (stack_head g')" "b \<in> set (stack_head g')"
      by blast
    from g'(1) obtain n where "n < length m" "m ! n = g'"
      by (auto simp: in_set_conv_nth)
    with g' have n: "n < length m" "a \<in> set (stack_head (m ! n))" "b \<in> set (stack_head (m ! n))"
      by simp_all
    from all [OF n(1)] n(2) assms(7) have "format_key sa = ks ! n" by force
    moreover from all [OF n(1)] n(3) assms(8) have "format_key sb = ks ! n" by force
    ultimately show "format_key sa = format_key sb" by simp
  next
    assume "format_key sa = format_key sb"
    with ka kb have "ks ! i = ks ! j" by simp
    with assms(2) i j len have "i = j" by (simp add: nth_eq_iff_index_eq)
    with i j assms(3,4,6) show "\<exists>g \<in> set m. a \<in> set (stack_head g) \<and> b \<in> set (stack_head g)"
      by auto
  qed
qed

lemma add_sinks_grouped:
  assumes "playlists st playlist = Some p" and "grouped st (sink_map p) ks" and "distinct ks"
    and "\<forall>c \<in> set calls. sinks st (fst c) \<noteq> None"
    and "add_sinks st playlist calls = Inr st'"
  shows "sinks st' = sinks st \<and>
     (\<exists>p' ks'. playlists st' playlist = Some p' \<and> grouped st' (sink_map p') ks' \<and> distinct ks' \<and>
        (\<forall>a. (\<exists>g \<in> set (sink_map p'). a \<in> set (stack_head g)) \<longleftrightarrow>
             a \<in> fst ` set calls \<or> (\<exists>g \<in> set (sink_map p). a \<in> set (stack_head g))))"
  using assms
proof (induction calls arbitrary: st p ks)
  case Nil
  then show ?case by auto
next
  case (Cons c calls)
  obtain sink stack_entry map_entry where c: "c = (sink, stack_entry, map_entry)"
    by (cases c) auto
  from Cons.prems(4) c obtain s where s: "sinks st sink = Some s" by auto
  from Cons.prems(5) c obtain st1 r where
    a: "add_sink_to_map st playlist sink stack_entry map_entry = Inr (st1, r)"
    and rest: "add_sinks st1 playlist calls = Inr st'"
    by (auto split: sum.splits)
  from add_sink_to_map_grouped [OF Cons.prems(1,2,3) s a] obtain p1 ks1 where
    1: "sinks st1 = sinks st" "playlists st1 playlist = Some p1" "grouped st1 (sink_map p1) ks1"
      "distinct ks1"
      "\<forall>a. (\<exists>g \<in> set (sink_map p1). a \<in> set (stack_head g)) \<longleftrightarrow>
             a = sink \<or> (\<exists>g \<in> set (sink_map p). a \<in> set (stack_head g))"
    by blast
  from Cons.prems(4) 1(1) have "\<forall>c \<in> set calls. sinks st1 (fst c) \<noteq> None" by simp
  from Cons.IH [OF 1(2,3,4) this rest] obtain p' ks' where
    2: "sinks st' = sinks st1" "playlists st' playlist = Some p'" "grouped st' (sink_map p') ks'"
      "distinct ks'"
      "\<forall>a. (\<exists>g \<in> set (sink_map p'). a \<in> set (stack_head g)) \<longleftrightarrow>
             a \<in> fst ` set calls \<or> (\<exists>g \<in> set (sink_map p1). a \<in> set (stack_head g))"
    by blast
  from 1(5) 2(5) c have "\<forall>a. (\<exists>g \<in> set (sink_map p'). a \<in> set (stack_head g)) \<longleftrightarrow>
             a \<in> fst ` set (c # calls) \<or> (\<exists>g \<in> set (sink_map p). a \<in> set (stack_head g))"
    by auto
  with 1(1) 2(1-4) show ?case by auto
qed

text \<open>
  C4. \<open>sink_formats_equal\<close> computes exactly the claimed predicate. And when live sinks
  are added, one call of \<open>add_sink_to_map\<close> after another, to a playlist whose sink map is
  empty, two of them end up on the stack of the same map item if and only if the
  predicate holds of them.
\<close>

theorem sinks_share_group_iff_same_format:
  assumes "playlists st playlist = Some p" and "sink_map p = []"
    and "\<forall>c \<in> set calls. sinks st (fst c) \<noteq> None"
    and "add_sinks st playlist calls = Inr st'"
  shows "(\<forall>x y. sink_formats_equal x y \<noteq> 0 \<longleftrightarrow> same_format x y) \<and>
     (\<exists>p'. playlists st' playlist = Some p' \<and>
        (\<forall>a b sa sb. a \<in> fst ` set calls \<and> b \<in> fst ` set calls \<and>
             sinks st a = Some sa \<and> sinks st b = Some sb \<longrightarrow>
           ((\<exists>g \<in> set (sink_map p'). a \<in> set (stack_head g) \<and> b \<in> set (stack_head g)) \<longleftrightarrow>
            same_format sa sb)))"
proof -
  from assms(2) have g0: "grouped st (sink_map p) []" by (simp add: grouped_def)
  from add_sinks_grouped [OF assms(1) g0 _ assms(3,4)] assms(2) obtain p' ks' where
    r: "sinks st' = sinks st" "playlists st' playlist = Some p'" "grouped st' (sink_map p') ks'"
      "distinct ks'"
      "\<forall>a. (\<exists>g \<in> set (sink_map p'). a \<in> set (stack_head g)) \<longleftrightarrow> a \<in> fst ` set calls"
    by auto
  have "(\<exists>g \<in> set (sink_map p'). a \<in> set (stack_head g) \<and> b \<in> set (stack_head g)) \<longleftrightarrow> same_format sa sb"
    if ab: "a \<in> fst ` set calls" "b \<in> fst ` set calls" "sinks st a = Some sa" "sinks st b = Some sb"
    for a b sa sb
  proof -
    from r(5) ab obtain g h where gh: "g \<in> set (sink_map p')" "a \<in> set (stack_head g)"
        "h \<in> set (sink_map p')" "b \<in> set (stack_head h)"
      by blast
    from grouped_same_group [OF r(3,4) gh] ab r(1) show ?thesis
      by (simp add: same_format_key)
  qed
  with r(2) show ?thesis
    by (simp add: sink_formats_equal_same_format)
qed

theorem sinks_share_group_iff_same_format_witness:
  "\<exists>st' p'. add_sinks ex_sinks_state 0 [(5, Some 100, Some 101), (7, Some 102, Some 103), (6, Some 104, Some 105)] = Inr st' \<and>
     playlists st' 0 = Some p' \<and>
     (\<exists>g \<in> set (sink_map p'). 5 \<in> set (stack_head g) \<and> 6 \<in> set (stack_head g)) \<and>
     same_format (ex_sink []) (ex_sink []) \<and>
     \<not> (\<exists>g \<in> set (sink_map p'). 5 \<in> set (stack_head g) \<and> 7 \<in> set (stack_head g)) \<and>
     \<not> same_format (ex_sink []) ex_sink_48k"
proof -
  let ?calls = "[(5, Some 100, Some 101), (7, Some 102, Some 103), (6, Some 104, Some 105)] :: (ptr \<times> ptr option \<times> ptr option) list"
  have "\<exists>st'. add_sinks ex_sinks_state 0 ?calls = Inr st'"
    by (simp add: add_sink_to_map_def sink_formats_equal_def ex_sinks_state_def ex_single_state_def
        ex_playlist_def ex_sink_def ex_sink_48k_def)
  then obtain st' where r: "add_sinks ex_sinks_state 0 ?calls = Inr st'" ..
  have p: "playlists ex_sinks_state 0 = Some (ex_playlist (Some 1) (Some 1) (Some 1) [])"
    by (simp add: ex_sinks_state_def ex_single_state_def)
  have e: "sink_map (ex_playlist (Some 1) (Some 1) (Some 1) []) = []"
    by (simp add: ex_playlist_def)
  have l: "\<forall>c \<in> set ?calls. sinks ex_sinks_state (fst c) \<noteq> None"
    by (simp add: ex_sinks_state_def)
  from sinks_share_group_iff_same_format [OF p e l r]
  have "\<exists>p'. playlists st' 0 = Some p' \<and>
        (\<forall>a b sa sb. a \<in> fst ` set ?calls \<and> b \<in> fst ` set ?calls \<and>
             sinks ex_sinks_state a = Some sa \<and> sinks ex_sinks_state b = Some sb \<longrightarrow>
           ((\<exists>g \<in> set (sink_map p'). a \<in> set (stack_head g) \<and> b \<in> set (stack_head g)) \<longleftrightarrow>
            same_format sa sb))"
    by (rule conjunct2)
  then obtain p' where pp: "playlists st' 0 = Some p' \<and>
        (\<forall>a b sa sb. a \<in> fst ` set ?calls \<and> b \<in> fst ` set ?calls \<and>
             sinks ex_sinks_state a = Some sa \<and> sinks ex_sinks_state b = Some sb \<longrightarrow>
           ((\<exists>g \<in> set (sink_map p'). a \<in> set (stack_head g) \<and> b \<in> set (stack_head g)) \<longleftrightarrow>
            same_format sa sb))" ..
  from pp have p': "playlists st' 0 = Some p'" by (rule conjunct1)
  from pp have iff: "\<forall>a b sa sb. a \<in> fst ` set ?calls \<and> b \<in> fst ` set ?calls \<and>
             sinks ex_sinks_state a = Some sa \<and> sinks ex_sinks_state b = Some sb \<longrightarrow>
           ((\<exists>g \<in> set (sink_map p'). a \<in> set (stack_head g) \<and> b \<in> set (stack_head g)) \<longleftrightarrow>
            same_format sa sb)" by (rule conjunct2)
  have s5: "sinks ex_sinks_state 5 = Some (ex_sink [])" and s6: "sinks ex_sinks_state 6 = Some (ex_sink [])"
    and s7: "sinks ex_sinks_state 7 = Some ex_sink_48k"
    by (simp_all add: ex_sinks_state_def)
  have y: "same_format (ex_sink []) (ex_sink [])" and n: "\<not> same_format (ex_sink []) ex_sink_48k"
    by (simp_all add: same_format_def ex_sink_def ex_sink_48k_def)
  have in5: "5 \<in> fst ` set ?calls" and in6: "6 \<in> fst ` set ?calls" and in7: "7 \<in> fst ` set ?calls"
    by simp_all
  from iff [rule_format, of 5 6 "ex_sink []" "ex_sink []"] in5 in6 s5 s6 y
  have 1: "\<exists>g \<in> set (sink_map p'). 5 \<in> set (stack_head g) \<and> 6 \<in> set (stack_head g)"
    by blast
  from iff [rule_format, of 5 7 "ex_sink []" ex_sink_48k] in5 in7 s5 s7 n
  have 2: "\<not> (\<exists>g \<in> set (sink_map p'). 5 \<in> set (stack_head g) \<and> 7 \<in> set (stack_head g))"
    by blast
  from r p' 1 2 y n show ?thesis by (intro exI [of _ st'] exI [of _ p'] conjI)
qed

subsection \<open>The rebuild flag\<close>

lemma add_sink_to_map_keeps_flag:
  "add_sink_to_map st playlist sink stack_entry map_entry = Inr (st', r) \<Longrightarrow>
   map_option rebuild_filter_graph_flag (playlists st' q) =
   map_option rebuild_filter_graph_flag (playlists st q)"
  by (auto simp: add_sink_to_map_def split: option.splits sum.splits if_splits)

lemma remove_sink_from_map_keeps_flag:
  "remove_sink_from_map st sink = Inr (st', r) \<Longrightarrow>
   map_option rebuild_filter_graph_flag (playlists st' q) =
   map_option rebuild_filter_graph_flag (playlists st q)"
  by (auto simp: remove_sink_from_map_def split: option.splits sum.splits if_splits)

lemma ex_attach_detach_runs:
  "\<exists>st1 p1 st2 p2.
     groove_sink_attach (\<lambda>_. 2) (\<lambda>_. 2) ex_graph_state 7 0 (Some 100) (Some 101) = Inr (st1, 0) \<and>
     playlists st1 0 = Some p1 \<and> sink_map_count p1 = 2 \<and> rebuild_filter_graph_flag p1 = 0 \<and>
     files st1 0 = Some ex_file \<and> \<not> needs_rebuild p1 ex_file \<and>
     groove_sink_detach st1 7 = Inr (st2, 0) \<and>
     playlists st2 0 = Some p2 \<and> sink_map_count p2 = 1 \<and> rebuild_filter_graph_flag p2 = 0 \<and>
     files st2 0 = Some ex_file \<and> \<not> needs_rebuild p2 ex_file"
  by (simp add: groove_sink_attach_def add_sink_to_map_def sink_formats_equal_def
      groove_queue_reset_def set_q_abort_def needs_rebuild_def double_ne_def dbl_def valof_def
      groove_sink_detach_def groove_queue_abort_def groove_queue_flush_def set_q_elems_def
      remove_sink_from_map_def
      ex_graph_state_def ex_single_state_def ex_playlist_def ex_sink_def ex_sink_48k_def
      ex_group_def ex_file_def ex_item_def)

text \<open>
  C3. The claim fails on the code: nothing in playlist.c sets
  \<open>rebuild_filter_graph_flag\<close>. Attaching sink 7 to playlist 0, whose graph is built and
  whose flag is clear, succeeds and opens a second map item, yet the flag stays clear and
  the next \<open>maybe_init_filter_graph\<close> returns without rebuilding; detaching the sink
  again succeeds and leaves the flag clear as well.
\<close>

theorem attach_detach_leave_rebuild_flag_clear:
  "\<exists>st1 st2.
     groove_sink_attach (\<lambda>_. 2) (\<lambda>_. 2) ex_graph_state 7 0 (Some 100) (Some 101) = Inr (st1, 0) \<and>
     map_option sink_map_count (playlists st1 0) = Some 2 \<and>
     map_option rebuild_filter_graph_flag (playlists st1 0) = Some 0 \<and>
     maybe_init_filter_graph ex_avfilter st1 0 (Some 0) = Inr (st1, 0) \<and>
     groove_sink_detach st1 7 = Inr (st2, 0) \<and>
     map_option sink_map_count (playlists st2 0) = Some 1 \<and>
     map_option rebuild_filter_graph_flag (playlists st2 0) = Some 0 \<and>
     maybe_init_filter_graph ex_avfilter st2 0 (Some 0) = Inr (st2, 0)"
proof -
  from ex_attach_detach_runs obtain st1 p1 st2 p2 where
    a: "groove_sink_attach (\<lambda>_. 2) (\<lambda>_. 2) ex_graph_state 7 0 (Some 100) (Some 101) = Inr (st1, 0)"
    and p1: "playlists st1 0 = Some p1" "sink_map_count p1 = 2" "rebuild_filter_graph_flag p1 = 0"
      "files st1 0 = Some ex_file" "\<not> needs_rebuild p1 ex_file"
    and d: "groove_sink_detach st1 7 = Inr (st2, 0)"
    and p2: "playlists st2 0 = Some p2" "sink_map_count p2 = 1" "rebuild_filter_graph_flag p2 = 0"
      "files st2 0 = Some ex_file" "\<not> needs_rebuild p2 ex_file"
    by blast
  from p1 have m1: "maybe_init_filter_graph ex_avfilter st1 0 (Some 0) = Inr (st1, 0)"
    by (simp add: maybe_init_filter_graph_def)
  from p2 have m2: "maybe_init_filter_graph ex_avfilter st2 0 (Some 0) = Inr (st2, 0)"
    by (simp add: maybe_init_filter_graph_def)
  from a p1 m1 d p2 m2 show ?thesis by (intro exI [of _ st1] exI [of _ st2]) simp
qed

subsection \<open>The volume filter\<close>











text \<open>The test by the value: 1.0 or more, or plus infinity; not NaN.\<close>

lemma volume_at_least_one:
  "double_gt v (dbl 1 0) \<or> double_eq v (dbl 1 0) \<longleftrightarrow>
   (case v of Finite s m e \<Rightarrow> 1 \<le> valof s m e | Infinity s \<Rightarrow> \<not> s | NaN \<Rightarrow> False)"
  by (cases v) (auto simp: double_gt_def dbl_def valof_def)
















text \<open>
  Three more passes of the worker on the same playlist. Gain \<open>6004799503160661 / 2\<^sup>5\<^sup>4\<close>
  (the double nearest to 1/3) at volume 3.0: the exact product \<open>1 - 1 / 2\<^sup>5\<^sup>4\<close> is rounded to
  1.0 and there is no volume node. Gain \<open>1 - 1 / 2\<^sup>5\<^sup>3\<close> at volume 1.0: the volume is below
  1.0, and the node's argument is \<open>volume=1.000000\<close>. An infinite gain at volume 0.0: the
  volume is NaN, and there is a volume node.
\<close>

lemma ex_third_of_three:
  "rebuilt_volume (decode_thread_step ex_avfilter ex_frame_step
       (ex_volume_state (dbl 6004799503160661 (- 54)) (dbl 3 0)) 0) 0 =
     Some (dbl 9007199254740992 (- 53), None, []) \<and>
   double_eq (dbl 9007199254740992 (- 53)) (dbl 1 0)"
  by (simp add: rebuilt_volume_def decode_thread_step_def every_sink_full_def every_sink_def
      sink_is_full_def decode_head_file_def set_effective_volume_def decode_one_frame_def
      maybe_init_filter_graph_def needs_rebuild_def init_filter_graph_def graph_create_filter_def
      graph_link_def init_volume_def init_asplit_def init_aformat_def init_abuffersink_def
      clamp_volume_def double_gt_def double_ne_def dbl_def valof_def round_double_def
      round_half_even_def bitlen.simps Let_def
      ex_avfilter_def ex_frame_step_def ex_volume_state_def ex_single_state_def ex_playlist_def
      ex_sink_def ex_group_def ex_file_def ex_item_def)

lemma ex_just_below_one:
  "rebuilt_volume (decode_thread_step ex_avfilter ex_frame_step
       (ex_volume_state (dbl 9007199254740991 (- 53)) (dbl 1 0)) 0) 0 =
     Some (dbl 9007199254740991 (- 53), Some 1, [''volume=1.000000''])"
  by (simp add: rebuilt_volume_def decode_thread_step_def every_sink_full_def every_sink_def
      sink_is_full_def decode_head_file_def set_effective_volume_def decode_one_frame_def
      maybe_init_filter_graph_def needs_rebuild_def init_filter_graph_def graph_create_filter_def
      graph_link_def init_volume_def init_asplit_def init_aformat_def init_abuffersink_def
      clamp_volume_def double_gt_def double_ne_def dbl_def valof_def round_double_def
      round_half_even_def bitlen.simps Let_def snprintf_volume_def micros_def decimal.simps
      fraction6_def digit_def
      ex_avfilter_def ex_frame_step_def ex_volume_state_def ex_single_state_def ex_playlist_def
      ex_sink_def ex_group_def ex_file_def ex_item_def)

lemma ex_nan_volume:
  "rebuilt_volume (decode_thread_step ex_avfilter ex_frame_step
       (ex_volume_state (Infinity False) (dbl 0 0)) 0) 0 =
     Some (NaN, Some 1, [''volume=nan''])"
  by (simp add: rebuilt_volume_def decode_thread_step_def every_sink_full_def every_sink_def
      sink_is_full_def decode_head_file_def set_effective_volume_def decode_one_frame_def
      maybe_init_filter_graph_def needs_rebuild_def init_filter_graph_def graph_create_filter_def
      graph_link_def init_volume_def init_asplit_def init_aformat_def init_abuffersink_def
      clamp_volume_def double_gt_def double_ne_def dbl_def valof_def Let_def snprintf_volume_def
      ex_avfilter_def ex_frame_step_def ex_volume_state_def ex_single_state_def ex_playlist_def
      ex_sink_def ex_group_def ex_file_def ex_item_def)


subsection \<open>The sentinel is sent once\<close>

lemma every_sink_stack_sent:
  assumes "\<And>s k s' v. func s k = Inr (s', v) \<Longrightarrow> playlists s' = playlists s"
    and "every_sink_stack func dv st ks = Inr (st', r)"
  shows "playlists st' = playlists st"
  using assms(2)
proof (induction ks arbitrary: st)
  case Nil
  then show ?case by simp
next
  case (Cons k ks)
  from Cons.prems obtain st1 v where f: "func st k = Inr (st1, v)"
    by (auto split: sum.splits)
  from assms(1) [OF f] have 1: "playlists st1 = playlists st" .
  show ?case
  proof (cases "v = dv")
    case True
    with Cons.prems f have "every_sink_stack func dv st1 ks = Inr (st', r)" by simp
    from Cons.IH [OF this] 1 show ?thesis by simp
  next
    case False
    with Cons.prems f 1 show ?thesis by simp
  qed
qed

lemma every_sink_map_sent:
  assumes "\<And>s k s' v. func s k = Inr (s', v) \<Longrightarrow> playlists s' = playlists s"
    and "every_sink_map func dv st ms = Inr (st', r)"
  shows "playlists st' = playlists st"
  using assms(2)
proof (induction ms arbitrary: st)
  case Nil
  then show ?case by simp
next
  case (Cons m ms)
  from Cons.prems obtain st1 r1 where e: "every_sink_stack func dv st (stack_head m) = Inr (st1, r1)"
    by (auto split: sum.splits)
  from every_sink_stack_sent [OF assms(1) e] have 1: "playlists st1 = playlists st" by simp
  show ?case
  proof (cases r1)
    case None
    with Cons.prems e have "every_sink_map func dv st1 ms = Inr (st', r)" by simp
    from Cons.IH [OF this] 1 show ?thesis by simp
  next
    case (Some v)
    with Cons.prems e 1 show ?thesis by simp
  qed
qed

lemma every_sink_playlists:
  assumes "\<And>s k s' v. func s k = Inr (s', v) \<Longrightarrow> playlists s' = playlists s"
    and "every_sink st playlist func dv = Inr (st', r)"
  shows "playlists st' = playlists st"
  using assms(2) every_sink_map_sent [OF assms(1)]
  by (auto simp: every_sink_def split: option.splits)

lemma sink_is_full_playlists: "sink_is_full s k = Inr (s', v) \<Longrightarrow> playlists s' = playlists s"
  by (auto simp: sink_is_full_def split: option.splits)

lemma sink_signal_end_playlists: "sink_signal_end s k = Inr (s', v) \<Longrightarrow> playlists s' = playlists s"
  by (auto simp: sink_signal_end_def groove_queue_put_def audioq_put_def
      split: option.splits sum.splits if_splits)

lemma every_sink_full_playlists: "every_sink_full st playlist = Inr (st', r) \<Longrightarrow> playlists st' = playlists st"
proof -
  assume "every_sink_full st playlist = Inr (st', r)"
  then have r: "every_sink st playlist sink_is_full 1 = Inr (st', r)"
    by (simp add: every_sink_full_def)
  show ?thesis
    by (rule every_sink_playlists [where func = sink_is_full, OF _ r])
       (erule sink_is_full_playlists)
qed

lemma every_sink_signal_end_playlists:
  "every_sink_signal_end st playlist = Inr st' \<Longrightarrow> playlists st' = playlists st"
proof -
  assume "every_sink_signal_end st playlist = Inr st'"
  then obtain r where r: "every_sink st playlist sink_signal_end 0 = Inr (st', r)"
    by (auto simp: every_sink_signal_end_def split: sum.splits)
  show ?thesis
    by (rule every_sink_playlists [where func = sink_signal_end, OF _ r])
       (erule sink_signal_end_playlists)
qed

lemma init_filter_graph_sent:
  "init_filter_graph av st playlist file = Inr (st', r) \<Longrightarrow>
   map_option sent_end_of_q (playlists st' q) = map_option sent_end_of_q (playlists st q)"
  unfolding init_filter_graph_def Let_def
  by (auto split: option.splits sum.splits prod.splits if_splits)

lemma maybe_init_filter_graph_sent:
  "maybe_init_filter_graph av st playlist file = Inr (st', r) \<Longrightarrow>
   map_option sent_end_of_q (playlists st' q) = map_option sent_end_of_q (playlists st q)"
  by (auto simp: maybe_init_filter_graph_def split: option.splits if_splits
      dest: init_filter_graph_sent)

lemma seek_to_start_playlists: "seek_to_start st f = Inr st' \<Longrightarrow> playlists st' = playlists st"
  by (auto simp: seek_to_start_def split: option.splits)

lemma advance_decode_head_sent:
  "advance_decode_head st playlist = Inr st' \<Longrightarrow>
   map_option sent_end_of_q (playlists st' q) = map_option sent_end_of_q (playlists st q)"
  by (auto simp: advance_decode_head_def Let_def split: option.splits
      dest!: seek_to_start_playlists)

lemma set_effective_volume_sent:
  "set_effective_volume st playlist = Inr st' \<Longrightarrow>
   map_option sent_end_of_q (playlists st' q) = map_option sent_end_of_q (playlists st q)"
  by (auto simp: set_effective_volume_def split: option.splits)

text \<open>
  One pass: the sentinel is sent exactly in the passes that find no decode head and
  \<open>sent_end_of_q\<close> clear, and such a pass sets \<open>sent_end_of_q\<close>; a pass that finds a decode
  head clears it; any other pass leaves it as it is.
\<close>

lemma decode_thread_step_sent:
  assumes frame0: "\<forall>s f s' r. frame_step s playlist f = Inr (s', r) \<longrightarrow>
      map_option sent_end_of_q (playlists s' playlist) = map_option sent_end_of_q (playlists s playlist)"
    and p: "playlists st playlist = Some p"
    and step: "decode_thread_step av frame_step st playlist = Inr (st', ev)"
  shows "(ev = Signalled_end \<longleftrightarrow> abort_request p = 0 \<and> decode_head p = None \<and> sent_end_of_q p = 0) \<and>
         (ev = Signalled_end \<longrightarrow> map_option sent_end_of_q (playlists st' playlist) = Some 1) \<and>
         (ev = Sinks_full \<or> ev = Decoded \<longleftrightarrow> abort_request p = 0 \<and> decode_head p \<noteq> None) \<and>
         (ev = Sinks_full \<or> ev = Decoded \<longrightarrow> map_option sent_end_of_q (playlists st' playlist) = Some 0) \<and>
         (ev = Idle \<or> ev = Stopped \<longrightarrow> st' = st)"
proof -
  from frame0 have frame: "\<And>s f s' r. frame_step s playlist f = Inr (s', r) \<Longrightarrow>
      map_option sent_end_of_q (playlists s' playlist) = map_option sent_end_of_q (playlists s playlist)"
    by blast
  show ?thesis
proof (cases "abort_request p = 0")
  case False
  with p step show ?thesis by (auto simp: decode_thread_step_def)
next
  case True
  note live = True
  show ?thesis
  proof (cases "decode_head p")
    case None
    show ?thesis
    proof (cases "sent_end_of_q p = 0")
      case True
      with p step live None obtain st1 where e: "every_sink_signal_end st playlist = Inr st1"
        by (auto simp: decode_thread_step_def split: sum.splits)
      from every_sink_signal_end_playlists [OF e] p have "playlists st1 playlist = Some p" by simp
      with p step live None True e show ?thesis
        by (auto simp: decode_thread_step_def)
    next
      case False
      with p step live None show ?thesis by (auto simp: decode_thread_step_def)
    qed
  next
    case (Some d)
    let ?st0 = "st\<lparr>playlists := (playlists st)(playlist \<mapsto> p\<lparr>sent_end_of_q := 0\<rparr>)\<rparr>"
    from p step live Some obtain st1 full where f: "every_sink_full ?st0 playlist = Inr (st1, full)"
      by (auto simp: decode_thread_step_def split: sum.splits)
    from every_sink_full_playlists [OF f] have 1: "map_option sent_end_of_q (playlists st1 playlist) = Some 0"
      by simp
    show ?thesis
    proof (cases "full = 0")
      case False
      with p step live Some f 1 show ?thesis by (auto simp: decode_thread_step_def)
    next
      case True
      with p step live Some f obtain fl st2 st3 r where
        v: "set_effective_volume st1 playlist = Inr st2"
        and dof: "decode_one_frame av frame_step st2 playlist fl = Inr (st3, r)"
        and last: "if sint r < 0 then (\<exists>st4. advance_decode_head st3 playlist = Inr st4 \<and> st' = st4) else st' = st3"
        and ev: "ev = Decoded"
        by (auto simp: decode_thread_step_def split: sum.splits if_splits)
      from set_effective_volume_sent [OF v] 1
      have 2: "map_option sent_end_of_q (playlists st2 playlist) = Some 0" by simp
      from dof obtain st2' r0 where m: "maybe_init_filter_graph av st2 playlist fl = Inr (st2', r0)"
        and rest: "if sint r0 < 0 then st3 = st2' else frame_step st2' playlist fl = Inr (st3, r)"
        by (auto simp: decode_one_frame_def split: sum.splits if_splits)
      from maybe_init_filter_graph_sent [OF m, of playlist] 2
      have m2: "map_option sent_end_of_q (playlists st2' playlist) = Some 0" by simp
      have 3: "map_option sent_end_of_q (playlists st3 playlist) = Some 0"
      proof (cases "sint r0 < 0")
        case True
        with rest m2 show ?thesis by simp
      next
        case False
        with rest have "frame_step st2' playlist fl = Inr (st3, r)" by simp
        from frame [OF this] m2 show ?thesis by simp
      qed
      from last 3 have "map_option sent_end_of_q (playlists st' playlist) = Some 0"
        by (auto split: if_splits dest!: advance_decode_head_sent [where q = playlist])
      with ev Some live show ?thesis by simp
    qed
  qed
qed
qed

lemma sentinel_due_append:
  "sentinel_due due (xs @ ys) \<Longrightarrow>
   \<exists>due'. sentinel_due due' ys \<and> (due' \<longrightarrow> due \<or> Sinks_full \<in> set xs \<or> Decoded \<in> set xs)"
proof (induction xs arbitrary: due)
  case Nil
  then show ?case by auto
next
  case (Cons ev xs)
  show ?case
  proof (cases ev)
    case Stopped
    with Cons.prems have "sentinel_due due (xs @ ys)" by simp
    from Cons.IH [OF this] show ?thesis by auto
  next
    case Signalled_end
    with Cons.prems have "sentinel_due False (xs @ ys)" by simp
    from Cons.IH [OF this] show ?thesis by auto
  next
    case Idle
    with Cons.prems have "sentinel_due due (xs @ ys)" by simp
    from Cons.IH [OF this] show ?thesis by auto
  next
    case Sinks_full
    with Cons.prems have "sentinel_due True (xs @ ys)" by simp
    from Cons.IH [OF this] Sinks_full show ?thesis by auto
  next
    case Decoded
    with Cons.prems have "sentinel_due True (xs @ ys)" by simp
    from Cons.IH [OF this] Decoded show ?thesis by auto
  qed
qed

lemma sentinel_due_first:
  assumes "sentinel_due False (xs @ Signalled_end # ys)"
  shows "Sinks_full \<in> set xs \<or> Decoded \<in> set xs"
  using sentinel_due_append [OF assms] by auto

lemma sentinel_due_between:
  assumes "sentinel_due due (xs @ Signalled_end # ys @ Signalled_end # zs)"
  shows "Sinks_full \<in> set ys \<or> Decoded \<in> set ys"
proof -
  from sentinel_due_append [OF assms] have "sentinel_due False (ys @ Signalled_end # zs)"
    by auto
  then show ?thesis by (rule sentinel_due_first)
qed

lemma every_sink_stack_keeps:
  assumes "\<And>s k s' v. func s k = Inr (s', v) \<Longrightarrow> s' = s"
    and "every_sink_stack func dv st ks = Inr (st', r)"
  shows "st' = st"
  using assms(2)
proof (induction ks arbitrary: st)
  case Nil
  then show ?case by simp
next
  case (Cons k ks)
  from Cons.prems obtain st1 v where f: "func st k = Inr (st1, v)"
    by (auto split: sum.splits)
  from assms(1) [OF f] have 1: "st1 = st" .
  show ?case
  proof (cases "v = dv")
    case True
    with Cons.prems f have "every_sink_stack func dv st1 ks = Inr (st', r)" by simp
    from Cons.IH [OF this] 1 show ?thesis by simp
  next
    case False
    with Cons.prems f 1 show ?thesis by simp
  qed
qed

lemma every_sink_map_keeps:
  assumes "\<And>s k s' v. func s k = Inr (s', v) \<Longrightarrow> s' = s"
    and "every_sink_map func dv st ms = Inr (st', r)"
  shows "st' = st"
  using assms(2)
proof (induction ms arbitrary: st)
  case Nil
  then show ?case by simp
next
  case (Cons m ms)
  from Cons.prems obtain st1 r1 where e: "every_sink_stack func dv st (stack_head m) = Inr (st1, r1)"
    by (auto split: sum.splits)
  from every_sink_stack_keeps [OF assms(1) e] have 1: "st1 = st" by simp
  show ?case
  proof (cases r1)
    case None
    with Cons.prems e have "every_sink_map func dv st1 ms = Inr (st', r)" by simp
    from Cons.IH [OF this] 1 show ?thesis by simp
  next
    case (Some v)
    with Cons.prems e 1 show ?thesis by simp
  qed
qed

lemma every_sink_full_keeps: "every_sink_full st playlist = Inr (st', r) \<Longrightarrow> st' = st"
proof -
  assume "every_sink_full st playlist = Inr (st', r)"
  then obtain p :: GroovePlaylist where
    r: "every_sink_map sink_is_full 1 st (sink_map p) = Inr (st', r)"
    by (auto simp: every_sink_full_def every_sink_def split: option.splits)
  show ?thesis
    by (rule every_sink_map_keeps [where func = sink_is_full, OF _ r])
       (auto simp: sink_is_full_def split: option.splits)
qed

text \<open>\<open>sink_signal_end\<close> appends one sentinel to the queue of the sink, if the queue is open.\<close>

lemma sink_signal_end_queue:
  assumes "sink_signal_end st k = Inr (st', v)"
  shows "v = 0 \<and> playlists st' = playlists st \<and>
         (\<forall>k'. queue_of st' k' = queue_of st k' @ (if k' = k \<and> queue_open st k then [None] else [])) \<and>
         (\<forall>k'. queue_open st' k' = queue_open st k')"
  using assms
  by (auto simp: sink_signal_end_def groove_queue_put_def audioq_put_def queue_of_def queue_open_def
      split: option.splits sum.splits if_splits)

lemma every_sink_stack_signal:
  assumes "every_sink_stack sink_signal_end 0 st ks = Inr (st', r)"
  shows "r = None \<and> playlists st' = playlists st \<and>
         (\<forall>k. queue_of st' k =
            queue_of st k @ replicate (if queue_open st k then count_list ks k else 0) None) \<and>
         (\<forall>k. queue_open st' k = queue_open st k)"
  using assms
proof (induction ks arbitrary: st)
  case Nil
  then show ?case by simp
next
  case (Cons k0 ks)
  from Cons.prems obtain st1 v where f: "sink_signal_end st k0 = Inr (st1, v)"
    by (auto split: sum.splits)
  from sink_signal_end_queue [OF f] have 1: "v = 0" "playlists st1 = playlists st"
    "\<forall>k'. queue_of st1 k' = queue_of st k' @ (if k' = k0 \<and> queue_open st k0 then [None] else [])"
    "\<forall>k'. queue_open st1 k' = queue_open st k'"
    by simp_all
  from Cons.prems f 1(1) have rest: "every_sink_stack sink_signal_end 0 st1 ks = Inr (st', r)"
    by simp
  from Cons.IH [OF rest] have ih: "r = None" "playlists st' = playlists st1"
    "\<forall>k. queue_of st' k =
        queue_of st1 k @ replicate (if queue_open st1 k then count_list ks k else 0) None"
    "\<forall>k. queue_open st' k = queue_open st1 k"
    by simp_all
  have "queue_of st' k =
      queue_of st k @ replicate (if queue_open st k then count_list (k0 # ks) k else 0) None" for k
    using ih(3) [rule_format, of k] 1(3) [rule_format, of k] 1(4) [rule_format, of k]
    by (auto simp: replicate_app_Cons_same)
  with ih 1 show ?case by simp
qed

lemma every_sink_map_signal:
  assumes "every_sink_map sink_signal_end 0 st ms = Inr (st', r)"
  shows "playlists st' = playlists st \<and>
         (\<forall>k. queue_of st' k =
            queue_of st k @
            replicate (if queue_open st k then count_list (concat (map stack_head ms)) k else 0) None) \<and>
         (\<forall>k. queue_open st' k = queue_open st k)"
  using assms
proof (induction ms arbitrary: st)
  case Nil
  then show ?case by simp
next
  case (Cons m ms)
  from Cons.prems obtain st1 r1 where e: "every_sink_stack sink_signal_end 0 st (stack_head m) = Inr (st1, r1)"
    by (auto split: sum.splits)
  from every_sink_stack_signal [OF e] have 1: "r1 = None" "playlists st1 = playlists st"
    "\<forall>k. queue_of st1 k =
        queue_of st k @ replicate (if queue_open st k then count_list (stack_head m) k else 0) None"
    "\<forall>k. queue_open st1 k = queue_open st k"
    by simp_all
  from Cons.prems e 1(1) have rest: "every_sink_map sink_signal_end 0 st1 ms = Inr (st', r)" by simp
  from Cons.IH [OF rest] have ih: "playlists st' = playlists st1"
    "\<forall>k. queue_of st' k =
        queue_of st1 k @
        replicate (if queue_open st1 k then count_list (concat (map stack_head ms)) k else 0) None"
    "\<forall>k. queue_open st' k = queue_open st1 k"
    by simp_all
  have "queue_of st' k =
      queue_of st k @
      replicate (if queue_open st k then count_list (concat (map stack_head (m # ms))) k else 0) None"
    for k
    using ih(2) [rule_format, of k] 1(3) [rule_format, of k] 1(4) [rule_format, of k]
    by (auto simp: replicate_add [symmetric] simp del: replicate_add)
  with ih 1 show ?case by simp
qed

lemma every_sink_signal_end_queue:
  assumes "playlists st playlist = Some p" and "every_sink_signal_end st playlist = Inr st'"
  shows "playlists st' = playlists st \<and>
         (\<forall>k. queue_of st' k = queue_of st k @ replicate (signalled st p k) None)"
proof -
  from assms obtain r where "every_sink_map sink_signal_end 0 st (sink_map p) = Inr (st', r)"
    by (auto simp: every_sink_signal_end_def every_sink_def split: sum.splits)
  from every_sink_map_signal [OF this] show ?thesis
    by (simp add: signalled_def attached_sinks_def)
qed

lemma sentinels_cong: "sinks st' = sinks st \<Longrightarrow> sentinels st' k = sentinels st k"
  by (simp add: sentinels_def queue_of_def)

lemma set_effective_volume_sinks: "set_effective_volume st playlist = Inr st' \<Longrightarrow> sinks st' = sinks st"
  by (auto simp: set_effective_volume_def split: option.splits)

lemma init_filter_graph_sinks:
  "init_filter_graph av st playlist file = Inr (st', r) \<Longrightarrow> sinks st' = sinks st"
  unfolding init_filter_graph_def Let_def
  by (auto split: option.splits sum.splits prod.splits if_splits)

lemma maybe_init_filter_graph_sinks:
  "maybe_init_filter_graph av st playlist file = Inr (st', r) \<Longrightarrow> sinks st' = sinks st"
  by (auto simp: maybe_init_filter_graph_def split: option.splits if_splits
      dest: init_filter_graph_sinks)

lemma advance_decode_head_sinks: "advance_decode_head st playlist = Inr st' \<Longrightarrow> sinks st' = sinks st"
  by (auto simp: advance_decode_head_def seek_to_start_def Let_def split: option.splits)

text \<open>
  One pass and the queues: a pass that sends the sentinel appends it to the queue of every
  attached sink whose queue is open, and changes no queue otherwise; any other pass adds
  no sentinel to any queue, when the decoding of a frame adds none.
\<close>

lemma decode_thread_step_queues:
  assumes frameq: "\<forall>s f s' r. frame_step s playlist f = Inr (s', r) \<longrightarrow>
      (\<forall>k. sentinels s' k \<le> sentinels s k)"
    and p: "playlists st playlist = Some p"
    and step: "decode_thread_step av frame_step st playlist = Inr (st', ev)"
  shows "(ev = Signalled_end \<longrightarrow>
            (\<forall>k. queue_of st' k = queue_of st k @ replicate (signalled st p k) None)) \<and>
         (ev \<noteq> Signalled_end \<longrightarrow> (\<forall>k. sentinels st' k \<le> sentinels st k))"
proof (cases "abort_request p = 0")
  case False
  with p step show ?thesis by (auto simp: decode_thread_step_def)
next
  case True
  note live = True
  show ?thesis
  proof (cases "decode_head p")
    case None
    show ?thesis
    proof (cases "sent_end_of_q p = 0")
      case True
      with p step live None obtain st1 where e: "every_sink_signal_end st playlist = Inr st1"
        by (auto simp: decode_thread_step_def split: sum.splits)
      from every_sink_signal_end_queue [OF p e]
      have 1: "playlists st1 = playlists st"
        "\<forall>k. queue_of st1 k = queue_of st k @ replicate (signalled st p k) None"
        by simp_all
      from p step live None True e 1(1) have "ev = Signalled_end" "sinks st' = sinks st1"
        by (auto simp: decode_thread_step_def)
      with 1(2) show ?thesis by (simp add: queue_of_def)
    next
      case False
      with p step live None show ?thesis by (auto simp: decode_thread_step_def)
    qed
  next
    case (Some d)
    let ?st0 = "st\<lparr>playlists := (playlists st)(playlist \<mapsto> p\<lparr>sent_end_of_q := 0\<rparr>)\<rparr>"
    from p step live Some obtain st1 full where f: "every_sink_full ?st0 playlist = Inr (st1, full)"
      by (auto simp: decode_thread_step_def split: sum.splits)
    from every_sink_full_keeps [OF f] have 1: "sinks st1 = sinks st" by simp
    show ?thesis
    proof (cases "full = 0")
      case False
      with p step live Some f have "ev = Sinks_full" "st' = st1"
        by (auto simp: decode_thread_step_def)
      with 1 sentinels_cong [of st' st] show ?thesis by simp
    next
      case True
      with p step live Some f obtain fl st2 st3 r where
        v: "set_effective_volume st1 playlist = Inr st2"
        and dof: "decode_one_frame av frame_step st2 playlist fl = Inr (st3, r)"
        and last: "if sint r < 0 then (\<exists>st4. advance_decode_head st3 playlist = Inr st4 \<and> st' = st4) else st' = st3"
        and ev: "ev = Decoded"
        by (auto simp: decode_thread_step_def split: sum.splits if_splits)
      from set_effective_volume_sinks [OF v] 1 have 2: "sinks st2 = sinks st" by simp
      from dof obtain st2' r0 where m: "maybe_init_filter_graph av st2 playlist fl = Inr (st2', r0)"
        and rest: "if sint r0 < 0 then st3 = st2' else frame_step st2' playlist fl = Inr (st3, r)"
        by (auto simp: decode_one_frame_def split: sum.splits if_splits)
      from maybe_init_filter_graph_sinks [OF m] 2 have m2: "sinks st2' = sinks st" by simp
      have 3: "\<forall>k. sentinels st3 k \<le> sentinels st k"
      proof (cases "sint r0 < 0")
        case True
        with rest m2 sentinels_cong [of st3 st] show ?thesis by simp
      next
        case False
        with rest have "frame_step st2' playlist fl = Inr (st3, r)" by simp
        with frameq have "\<forall>k. sentinels st3 k \<le> sentinels st2' k" by blast
        with sentinels_cong [OF m2] show ?thesis by simp
      qed
      from last have "sinks st' = sinks st3"
        by (auto split: if_splits dest: advance_decode_head_sinks)
      from sentinels_cong [OF this] 3 ev show ?thesis by simp
    qed
  qed
qed

text \<open>Every element of a run is a pass of the worker.\<close>

lemma decode_thread_passes:
  "(s, ev, s') \<in> set (decode_thread av frame_step playlist others st) \<Longrightarrow>
   decode_thread_step av frame_step s playlist = Inr (s', ev)"
proof (induction others arbitrary: st)
  case Nil
  then show ?case by simp
next
  case (Cons other others)
  show ?case
  proof (cases "decode_thread_step av frame_step (other st) playlist")
    case (Inl e)
    with Cons.prems show ?thesis by simp
  next
    case (Inr res)
    obtain st1 ev1 where res: "res = (st1, ev1)" by (cases res)
    show ?thesis
    proof (cases "ev1 = Stopped")
      case True
      with Cons.prems Inr res show ?thesis by simp
    next
      case False
      with Inr res have "decode_thread av frame_step playlist (other # others) st =
          (other st, ev1, st1) # decode_thread av frame_step playlist others st1"
        by (cases ev1) simp_all
      with Cons.prems Cons.IH [of st1] Inr res show ?thesis by auto
    qed
  qed
qed

lemma decode_thread_sentinel_due:
  assumes frame0: "\<forall>s f s' r. frame_step s playlist f = Inr (s', r) \<longrightarrow>
      map_option sent_end_of_q (playlists s' playlist) = map_option sent_end_of_q (playlists s playlist)"
    and others: "\<forall>other \<in> set others. \<forall>s.
      map_option sent_end_of_q (playlists (other s) playlist) = map_option sent_end_of_q (playlists s playlist)"
    and sent: "map_option sent_end_of_q (playlists st playlist) = Some sent"
  shows "sentinel_due (sent = 0) (map (fst \<circ> snd) (decode_thread av frame_step playlist others st))"
  using others sent
proof (induction others arbitrary: st sent)
  case Nil
  then show ?case by simp
next
  case (Cons other others)
  from Cons.prems obtain p where p: "playlists (other st) playlist = Some p" "sent_end_of_q p = sent"
    by (auto simp: map_option_case split: option.splits) (metis option.simps(3,5) option.inject)
  show ?case
  proof (cases "decode_thread_step av frame_step (other st) playlist")
    case (Inl e)
    then show ?thesis by simp
  next
    case (Inr res)
    obtain st' ev where res: "res = (st', ev)" by (cases res)
    note step = decode_thread_step_sent [where frame_step = frame_step and playlist = playlist, OF frame0 p(1) Inr [unfolded res]]
    from Cons.prems have o: "\<forall>other \<in> set others. \<forall>s.
      map_option sent_end_of_q (playlists (other s) playlist) = map_option sent_end_of_q (playlists s playlist)"
      by simp
    show ?thesis
    proof (cases ev)
      case Stopped
      with Inr res show ?thesis by simp
    next
      case Signalled_end
      with step p have "sent = 0" and "map_option sent_end_of_q (playlists st' playlist) = Some 1"
        by auto
      with Cons.IH [OF o, of st' 1] Inr res Signalled_end show ?thesis by simp
    next
      case Idle
      with step have "st' = other st" by simp
      with p have "map_option sent_end_of_q (playlists st' playlist) = Some sent" by simp
      from Cons.IH [OF o this] Inr res Idle show ?thesis by simp
    next
      case Sinks_full
      with step have "map_option sent_end_of_q (playlists st' playlist) = Some 0" by simp
      from Cons.IH [OF o this] Inr res Sinks_full show ?thesis by simp
    next
      case Decoded
      with step have "map_option sent_end_of_q (playlists st' playlist) = Some 0" by simp
      from Cons.IH [OF o this] Inr res Decoded show ?thesis by simp
    qed
  qed
qed

lemma decode_thread_dead:
  assumes others: "\<forall>other \<in> set others. \<forall>s.
      map_option sent_end_of_q (playlists (other s) playlist) = map_option sent_end_of_q (playlists s playlist)"
    and dead: "playlists st playlist = None"
  shows "decode_thread av frame_step playlist others st = []"
proof (cases others)
  case Nil
  then show ?thesis by simp
next
  case (Cons other rest)
  with others have "map_option sent_end_of_q (playlists (other st) playlist) =
      map_option sent_end_of_q (playlists st playlist)"
    by simp
  with dead have "playlists (other st) playlist = None" by simp
  with Cons show ?thesis by (simp add: decode_thread_step_def)
qed

text \<open>The same by position in the list of passes.\<close>

lemma sentinel_due_nth_first:
  assumes "sentinel_due False evs" and "i < length evs" and "evs ! i = Signalled_end"
  shows "\<exists>j < i. evs ! j = Sinks_full \<or> evs ! j = Decoded"
proof -
  from assms(2,3) have "evs = take i evs @ Signalled_end # drop (Suc i) evs"
    by (metis id_take_nth_drop)
  with assms(1) have "sentinel_due False (take i evs @ Signalled_end # drop (Suc i) evs)" by simp
  from sentinel_due_first [OF this] obtain x where x: "x \<in> set (take i evs)" "x = Sinks_full \<or> x = Decoded"
    by blast
  from x(1) obtain j where "j < length (take i evs)" "take i evs ! j = x"
    by (auto simp: in_set_conv_nth)
  with assms(2) have "j < i" "evs ! j = x" by simp_all
  with x(2) show ?thesis by blast
qed

lemma sentinel_due_nth_between:
  assumes "sentinel_due due evs" and "i1 < i2" and "i2 < length evs"
    and "evs ! i1 = Signalled_end" and "evs ! i2 = Signalled_end"
  shows "\<exists>j. i1 < j \<and> j < i2 \<and> (evs ! j = Sinks_full \<or> evs ! j = Decoded)"
proof -
  let ?d = "drop (Suc i1) evs"
  let ?n = "i2 - Suc i1"
  from assms(2,3) have n: "?n < length ?d" "?d ! ?n = evs ! i2" by simp_all
  from assms(2,3,4) have 1: "evs = take i1 evs @ Signalled_end # ?d"
    by (metis id_take_nth_drop less_trans)
  from n assms(5) have 2: "?d = take ?n ?d @ Signalled_end # drop (Suc ?n) ?d"
    by (metis id_take_nth_drop)
  from 1 2 have "evs = take i1 evs @ Signalled_end # take ?n ?d @ Signalled_end # drop (Suc ?n) ?d"
    by simp
  with assms(1) have "sentinel_due due
      (take i1 evs @ Signalled_end # take ?n ?d @ Signalled_end # drop (Suc ?n) ?d)"
    by simp
  from sentinel_due_between [OF this] obtain x where
    x: "x \<in> set (take ?n ?d)" "x = Sinks_full \<or> x = Decoded"
    by blast
  from x(1) obtain j where j: "j < length (take ?n ?d)" "take ?n ?d ! j = x"
    by (auto simp: in_set_conv_nth)
  from j n(1) have "j < ?n" by simp
  moreover from this j(2) assms(3) have "evs ! (Suc i1 + j) = x" by simp
  ultimately have "i1 < Suc i1 + j \<and> Suc i1 + j < i2 \<and> evs ! (Suc i1 + j) = x" by auto
  with x(2) show ?thesis by blast
qed

text \<open>
  The calls of the API modelled here never write \<open>sent_end_of_q\<close> (the field's comment:
  "only touched by decode_thread").
\<close>

lemma add_sink_to_map_sent:
  "add_sink_to_map st playlist sink stack_entry map_entry = Inr (st', r) \<Longrightarrow>
   map_option sent_end_of_q (playlists st' q) = map_option sent_end_of_q (playlists st q)"
  by (auto simp: add_sink_to_map_def split: option.splits sum.splits if_splits)

lemma groove_sink_attach_sent:
  assumes "groove_sink_attach nb_channels bytes_per_sample st sink playlist stack_entry map_entry =
           Inr (st', r)"
  shows "map_option sent_end_of_q (playlists st' q) = map_option sent_end_of_q (playlists st q)"
proof -
  from assms obtain s where s: "sinks st sink = Some s"
    by (auto simp: groove_sink_attach_def split: option.splits)
  define s1 where "s1 = s\<lparr>bytes_per_sec :=
      nb_channels (channel_layout (audio_format s)) * bytes_per_sample (sample_fmt (audio_format s)) *
      sample_rate (audio_format s),
    min_audioq_size := buffer_size s *
      (nb_channels (channel_layout (audio_format s)) * bytes_per_sample (sample_fmt (audio_format s)))\<rparr>"
  define st1 where "st1 = st\<lparr>sinks := (sinks st)(sink \<mapsto> s1)\<rparr>"
  from assms s obtain st2 err where
    add: "add_sink_to_map st1 playlist sink stack_entry map_entry = Inr (st2, err)"
    by (auto simp: groove_sink_attach_def Let_def st1_def s1_def split: if_splits sum.splits)
  from assms s add have "playlists st' = playlists st2"
    by (auto simp: groove_sink_attach_def Let_def st1_def s1_def groove_queue_reset_def
        set_q_abort_def split: if_splits sum.splits option.splits)
  with add_sink_to_map_sent [OF add, of q] show ?thesis by (simp add: st1_def)
qed

lemma groove_sink_detach_sent:
  assumes "groove_sink_detach st sink = Inr (st', r)"
  shows "map_option sent_end_of_q (playlists st' q) = map_option sent_end_of_q (playlists st q)"
proof -
  from assms obtain s where s: "sinks st sink = Some s"
    by (auto simp: groove_sink_detach_def split: option.splits)
  show ?thesis
  proof (cases "sink_playlist s")
    case None
    with assms s show ?thesis by (simp add: groove_sink_detach_def)
  next
    case (Some playlist)
    from assms s Some obtain st1 st2 where
      fl: "(if audioq s \<noteq> None
            then (case groove_queue_abort st sink of
                    Inl e \<Rightarrow> Inl e
                  | Inr st' \<Rightarrow> groove_queue_flush st' sink)
            else Inr st) = Inr st1"
      and rm: "remove_sink_from_map st1 sink = Inr (st2, r)"
      and st': "playlists st' = playlists st2"
      by (auto simp: groove_sink_detach_def split: sum.splits option.splits)
    from detach_flush_owner [OF s fl] have "playlists st1 = playlists st" by simp
    moreover from rm have "map_option sent_end_of_q (playlists st2 q) =
        map_option sent_end_of_q (playlists st1 q)"
      by (auto simp: remove_sink_from_map_def split: option.splits)
    ultimately show ?thesis using st' by simp
  qed
qed

lemma groove_playlist_insert_sent:
  "groove_playlist_insert st playlist file gain next_item new_item = Inr (st', r) \<Longrightarrow>
   map_option sent_end_of_q (playlists st' q) = map_option sent_end_of_q (playlists st q)"
  by (auto simp: groove_playlist_insert_def Let_def set_item_prev_def set_item_next_def
      seek_to_start_def split: option.splits sum.splits)

lemma groove_playlist_remove_sent:
  assumes "groove_playlist_remove st playlist item = Inr st'"
  shows "map_option sent_end_of_q (playlists st' q) = map_option sent_end_of_q (playlists st q)"
proof -
  from assms obtain st1 st2 st3 st4 st5 r st6 where
    steps: "skip_decode_head st playlist item = Inr st1"
      "unlink_prev st1 playlist item = Inr st2"
      "unlink_next st2 playlist item = Inr st3"
      "set_purge_item st3 playlist (Some item) = Inr st4"
      "every_sink st4 playlist purge_sink 0 = Inr (st5, r)"
      "set_purge_item st5 playlist None = Inr st6"
      "st' = av_free_item st6 item"
    by (auto simp: groove_playlist_remove_def split: sum.splits)
  have 1: "map_option sent_end_of_q (playlists st1 q) = map_option sent_end_of_q (playlists st q)"
    using steps(1) by (auto simp: skip_decode_head_def split: option.splits if_splits)
  have 2: "map_option sent_end_of_q (playlists st2 q) = map_option sent_end_of_q (playlists st1 q)"
    using steps(2) by (auto simp: unlink_prev_def split: option.splits if_splits)
  have 3: "map_option sent_end_of_q (playlists st3 q) = map_option sent_end_of_q (playlists st2 q)"
    using steps(3) by (auto simp: unlink_next_def split: option.splits if_splits)
  have 4: "map_option sent_end_of_q (playlists st4 q) = map_option sent_end_of_q (playlists st3 q)"
    using steps(4) by (auto simp: set_purge_item_def split: option.splits if_splits)
  have "\<And>s k s' v. purge_sink s k = Inr (s', v) \<Longrightarrow> playlists s' = playlists s"
    by (auto simp: purge_sink_def groove_queue_purge_def set_q_elems_def
        split: sum.splits option.splits if_splits dest!: purge_elems_sinks)
  from every_sink_playlists [where func = purge_sink, OF this steps(5)]
  have 5: "playlists st5 = playlists st4" .
  have 6: "map_option sent_end_of_q (playlists st' q) = map_option sent_end_of_q (playlists st5 q)"
    using steps(6,7) by (auto simp: set_purge_item_def av_free_item_def split: option.splits if_splits)
  from 1 2 3 4 5 6 show ?thesis by simp
qed

lemma api_sent:
  assumes "\<And>st st' r. call st = Inr (st', r) \<Longrightarrow>
      map_option sent_end_of_q (playlists st' q) = map_option sent_end_of_q (playlists st q)"
  shows "map_option sent_end_of_q (playlists (api call s) q) = map_option sent_end_of_q (playlists s q)"
proof (cases "call s")
  case (Inl e)
  then show ?thesis by (simp add: api_def)
next
  case (Inr res)
  obtain st' r where "res = (st', r)" by (cases res)
  with Inr assms [of s st' r] show ?thesis by (simp add: api_def)
qed

text \<open>
  C7. \<open>sent_end_of_q\<close> is set when \<open>groove_playlist_create\<close> returns a playlist. Let the
  decoding of a frame (lines 486-546) neither write \<open>sent_end_of_q\<close> nor add a sentinel to
  a queue, and let the other threads not write \<open>sent_end_of_q\<close>. A pass of the worker that
  finds no abort request, no decode head and \<open>sent_end_of_q\<close> clear appends the sentinel to
  the queue of every attached sink (whose queue is open), changes no queue otherwise and
  sets \<open>sent_end_of_q\<close>; every other pass adds no sentinel to any queue. Hence, in a run of
  the worker on the new playlist, a pass that finds a decode head comes before the first
  pass that adds a sentinel to a queue; and in a run from any state, one comes between any
  two passes that add a sentinel to a queue.
\<close>

theorem sentinel_only_after_decode_head:
  assumes frame: "\<forall>s f s' r. frame_step s playlist f = Inr (s', r) \<longrightarrow>
      map_option sent_end_of_q (playlists s' playlist) = map_option sent_end_of_q (playlists s playlist) \<and>
      (\<forall>k. sentinels s' k \<le> sentinels s k)"
    and others: "\<forall>other \<in> set others. \<forall>s.
      map_option sent_end_of_q (playlists (other s) playlist) = map_option sent_end_of_q (playlists s playlist)"
    and created: "groove_playlist_create st0 new_playlist inits_ok = (st, Some playlist)"
  shows "map_option sent_end_of_q (playlists st playlist) = Some 1 \<and>
     (\<forall>s p s' ev. playlists s playlist = Some p \<and>
          decode_thread_step av frame_step s playlist = Inr (s', ev) \<longrightarrow>
        (if abort_request p = 0 \<and> decode_head p = None \<and> sent_end_of_q p = 0
         then ev = Signalled_end \<and>
              (\<forall>k. queue_of s' k = queue_of s k @ replicate (signalled s p k) None) \<and>
              map_option sent_end_of_q (playlists s' playlist) = Some 1
         else ev \<noteq> Signalled_end \<and> (\<forall>k. sentinels s' k \<le> sentinels s k)) \<and>
        (ev = Sinks_full \<or> ev = Decoded \<longleftrightarrow> abort_request p = 0 \<and> decode_head p \<noteq> None)) \<and>
     (\<forall>i k. i < length (decode_thread av frame_step playlist others st) \<and>
          gained_sentinel (decode_thread av frame_step playlist others st ! i) k \<longrightarrow>
        (\<exists>j < i. found_head playlist (decode_thread av frame_step playlist others st ! j))) \<and>
     (\<forall>s i1 i2 k1 k2. i1 < i2 \<and> i2 < length (decode_thread av frame_step playlist others s) \<and>
          gained_sentinel (decode_thread av frame_step playlist others s ! i1) k1 \<and>
          gained_sentinel (decode_thread av frame_step playlist others s ! i2) k2 \<longrightarrow>
        (\<exists>j. i1 < j \<and> j < i2 \<and> found_head playlist (decode_thread av frame_step playlist others s ! j)))"
proof -
  from frame have fr: "\<forall>s f s' r. frame_step s playlist f = Inr (s', r) \<longrightarrow>
      map_option sent_end_of_q (playlists s' playlist) = map_option sent_end_of_q (playlists s playlist)"
    and frq: "\<forall>s f s' r. frame_step s playlist f = Inr (s', r) \<longrightarrow> (\<forall>k. sentinels s' k \<le> sentinels s k)"
    by blast+
  from created have 1: "map_option sent_end_of_q (playlists st playlist) = Some 1"
    by (auto simp: groove_playlist_create_def split: option.splits if_splits)
  have 2: "(if abort_request p = 0 \<and> decode_head p = None \<and> sent_end_of_q p = 0
         then ev = Signalled_end \<and>
              (\<forall>k. queue_of s' k = queue_of s k @ replicate (signalled s p k) None) \<and>
              map_option sent_end_of_q (playlists s' playlist) = Some 1
         else ev \<noteq> Signalled_end \<and> (\<forall>k. sentinels s' k \<le> sentinels s k)) \<and>
        (ev = Sinks_full \<or> ev = Decoded \<longleftrightarrow> abort_request p = 0 \<and> decode_head p \<noteq> None)"
    if "playlists s playlist = Some p" "decode_thread_step av frame_step s playlist = Inr (s', ev)"
    for s p s' ev
    using decode_thread_step_sent [where frame_step = frame_step and playlist = playlist, OF fr that]
      decode_thread_step_queues [where frame_step = frame_step and playlist = playlist, OF frq that]
    by auto
  text \<open>What the passes of a run are.\<close>
  have pass: "(gained_sentinel (run ! i) k \<longrightarrow> fst (snd (run ! i)) = Signalled_end) \<and>
      (fst (snd (run ! i)) = Sinks_full \<or> fst (snd (run ! i)) = Decoded \<longrightarrow> found_head playlist (run ! i))"
    if run: "run = decode_thread av frame_step playlist others s" and i: "i < length run"
    for run s i k
  proof -
    obtain a ev b where r: "run ! i = (a, ev, b)" by (cases "run ! i")
    with i have "(a, ev, b) \<in> set run" by (metis nth_mem)
    with run have step: "decode_thread_step av frame_step a playlist = Inr (b, ev)"
      by (simp add: decode_thread_passes)
    then obtain p where p: "playlists a playlist = Some p"
      by (auto simp: decode_thread_step_def split: option.splits)
    note t = 2 [OF p step]
    have "ev = Signalled_end" if g: "gained_sentinel (run ! i) k"
    proof (rule ccontr)
      assume n: "ev \<noteq> Signalled_end"
      with t have "\<forall>k. sentinels b k \<le> sentinels a k" by (auto split: if_splits)
      then have "sentinels b k \<le> sentinels a k" ..
      with g r show False by (simp add: gained_sentinel_def)
    qed
    moreover have "found_head playlist (run ! i)" if "ev = Sinks_full \<or> ev = Decoded"
      using t that r p by (simp add: found_head_def)
    ultimately show ?thesis using r by simp
  qed
  have 3: "\<exists>j < i. found_head playlist (decode_thread av frame_step playlist others st ! j)"
    if "i < length (decode_thread av frame_step playlist others st)"
      "gained_sentinel (decode_thread av frame_step playlist others st ! i) k"
    for i k
  proof -
    let ?run = "decode_thread av frame_step playlist others st"
    let ?evs = "map (fst \<circ> snd) ?run"
    from decode_thread_sentinel_due [where frame_step = frame_step and playlist = playlist and av = av, OF fr others 1]
    have due: "sentinel_due False ?evs" by simp
    from pass [OF refl that(1), where k = k] that have "?evs ! i = Signalled_end" by simp
    from sentinel_due_nth_first [OF due _ this] that(1) obtain j where
      j: "j < i" "?evs ! j = Sinks_full \<or> ?evs ! j = Decoded"
      by auto
    with that(1) have "j < length ?run" by simp
    from pass [OF refl this, where k = k] j this have "found_head playlist (?run ! j)" by auto
    with j(1) show ?thesis by blast
  qed
  have 4: "\<exists>j. i1 < j \<and> j < i2 \<and> found_head playlist (decode_thread av frame_step playlist others s ! j)"
    if "i1 < i2" "i2 < length (decode_thread av frame_step playlist others s)"
      "gained_sentinel (decode_thread av frame_step playlist others s ! i1) k1"
      "gained_sentinel (decode_thread av frame_step playlist others s ! i2) k2"
    for s i1 i2 k1 k2
  proof (cases "playlists s playlist")
    case None
    from decode_thread_dead [OF others None, of av frame_step] that(2) show ?thesis by simp
  next
    case (Some p)
    let ?run = "decode_thread av frame_step playlist others s"
    let ?evs = "map (fst \<circ> snd) ?run"
    from Some have "map_option sent_end_of_q (playlists s playlist) = Some (sent_end_of_q p)" by simp
    from decode_thread_sentinel_due [where frame_step = frame_step and playlist = playlist and av = av, OF fr others this]
    have due: "sentinel_due (sent_end_of_q p = 0) ?evs" .
    from that(1,2) have l1: "i1 < length ?run" by simp
    from pass [OF refl l1, where k = k1] that(3) l1 have e1: "?evs ! i1 = Signalled_end" by simp
    from pass [OF refl that(2), where k = k2] that(4,2) have e2: "?evs ! i2 = Signalled_end" by simp
    from sentinel_due_nth_between [OF due that(1) _ e1 e2] that(2) obtain j where
      j: "i1 < j" "j < i2" "?evs ! j = Sinks_full \<or> ?evs ! j = Decoded"
      by auto
    with that(2) have "j < length ?run" by simp
    from pass [OF refl this, where k = k1] j(3) this have "found_head playlist (?run ! j)" by auto
    with j(1,2) show ?thesis by blast
  qed
  from 1 2 3 4 show ?thesis by blast
qed

lemma ex_worker_run_passes:
  "map (fst \<circ> snd) ex_worker_run = [Idle, Decoded, Signalled_end, Idle] \<and>
   map (\<lambda>pass. queue_of (fst pass) 5) ex_worker_run = [[], [], [], [None]] \<and>
   map (\<lambda>pass. queue_of (snd (snd pass)) 5) ex_worker_run = [[], [], [None], [None]] \<and>
   map (found_head 0) ex_worker_run = [False, True, False, False]"
  by (simp add: ex_worker_run_def ex_others_def api_def ex_end_of_file_def ex_fresh_state_def
      groove_playlist_create_def groove_sink_attach_def add_sink_to_map_def groove_queue_reset_def
      set_q_abort_def groove_playlist_insert_def seek_to_start_def Let_def
      decode_thread_step_def every_sink_full_def every_sink_signal_end_def every_sink_def
      sink_is_full_def sink_signal_end_def groove_queue_put_def audioq_put_def
      decode_head_file_def set_effective_volume_def decode_one_frame_def
      maybe_init_filter_graph_def needs_rebuild_def init_filter_graph_def graph_create_filter_def
      graph_link_def init_volume_def init_asplit_def init_aformat_def init_abuffersink_def
      clamp_volume_def double_gt_def double_ne_def dbl_def valof_def round_double_def
      round_half_even_def bitlen.simps advance_decode_head_def
      queue_of_def found_head_def
      ex_avfilter_def ex_sink_def ex_file_def)

text \<open>
  A run on a new playlist. Sink 5 is attached and the worker waits; an item is inserted
  and becomes the decode head, and the worker finds its file at the end and moves on; the
  worker finds no decode head and sends the sentinel to sink 5; the worker waits, and
  sends nothing more.
\<close>

theorem sentinel_only_after_decode_head_witness:
  "map (fst \<circ> snd) ex_worker_run = [Idle, Decoded, Signalled_end, Idle] \<and>
   map (\<lambda>pass. queue_of (snd (snd pass)) 5) ex_worker_run = [[], [], [None], [None]] \<and>
   gained_sentinel (ex_worker_run ! 2) 5 \<and>
   (\<exists>j < 2. found_head 0 (ex_worker_run ! j))"
proof -
  let ?st = "fst (groove_playlist_create ex_fresh_state (Some 0) True)"
  have frame: "\<forall>s f s' r. ex_end_of_file s 0 f = Inr (s', r) \<longrightarrow>
      map_option sent_end_of_q (playlists s' 0) = map_option sent_end_of_q (playlists s 0) \<and>
      (\<forall>k. sentinels s' k \<le> sentinels s k)"
    by (simp add: ex_end_of_file_def)
  have others: "\<forall>other \<in> set ex_others. \<forall>s.
      map_option sent_end_of_q (playlists (other s) 0) = map_option sent_end_of_q (playlists s 0)"
    by (simp add: ex_others_def api_sent groove_sink_attach_sent groove_playlist_insert_sent)
  have created: "groove_playlist_create ex_fresh_state (Some 0) True = (?st, Some 0)"
    by (simp add: groove_playlist_create_def)
  note run = ex_worker_run_passes
  from run have "length (map (fst \<circ> snd) ex_worker_run) = 4" by simp
  then have len: "length ex_worker_run = 4" by simp
  from run have "map (\<lambda>pass. queue_of (fst pass) 5) ex_worker_run ! 2 = []"
    "map (\<lambda>pass. queue_of (snd (snd pass)) 5) ex_worker_run ! 2 = [None]"
    by simp_all
  with len have g: "gained_sentinel (ex_worker_run ! 2) 5"
    by (simp add: gained_sentinel_def sentinels_def)
  note t = sentinel_only_after_decode_head [where frame_step = ex_end_of_file and playlist = 0
      and av = ex_avfilter, OF frame others created]
  from t have "\<forall>i k. i < length (decode_thread ex_avfilter ex_end_of_file 0 ex_others ?st) \<and>
      gained_sentinel (decode_thread ex_avfilter ex_end_of_file 0 ex_others ?st ! i) k \<longrightarrow>
      (\<exists>j < i. found_head 0 (decode_thread ex_avfilter ex_end_of_file 0 ex_others ?st ! j))"
    by blast
  then have "\<forall>i k. i < length ex_worker_run \<and> gained_sentinel (ex_worker_run ! i) k \<longrightarrow>
      (\<exists>j < i. found_head 0 (ex_worker_run ! j))"
    by (simp add: ex_worker_run_def)
  then have "2 < length ex_worker_run \<and> gained_sentinel (ex_worker_run ! 2) 5 \<longrightarrow>
      (\<exists>j < 2. found_head 0 (ex_worker_run ! j))"
    by (rule allE [where x = 2]) (erule allE [where x = 5])
  with len g have "\<exists>j < 2. found_head 0 (ex_worker_run ! j)" by simp
  with run g show ?thesis by simp
qed

end
